theory Spec2Isabelle
  imports Complex_Main "HOL-Library.AList" "HOL-Library.Multiset" "HOL-Library.Sublist"
begin

chapter \<open>The program\<close>

text \<open>
  A shallow embedding of \<^verbatim>\<open>src/app.js\<close> and \<^verbatim>\<open>src/icons/index.js\<close>.
  JavaScript numbers are modelled as real numbers (no rounding of doubles, no overflow to
  an infinity); where the source can produce \<^verbatim>\<open>NaN\<close> the model has a value for it.
\<close>

section \<open>Strings\<close>

text \<open>
  A JavaScript string is a sequence of UTF-16 code units, here natural numbers. \<open>js\<close>
  embeds an ASCII literal. \<open>is_space\<close> is the class \<^verbatim>\<open>\s\<close> of regular
  expressions (white space and line terminators), \<open>is_digit\<close> the class \<^verbatim>\<open>\d\<close>.
\<close>

type_synonym jsstring = "nat list"

definition js :: "string \<Rightarrow> jsstring" where
  "js s = map of_char s"

abbreviation (input) DQ :: nat where "DQ \<equiv> 34"

abbreviation (input) SQ :: nat where "SQ \<equiv> 39"

definition is_space :: "nat \<Rightarrow> bool" where
  "is_space c \<longleftrightarrow>
     c \<in> {9, 10, 11, 12, 13, 32, 160, 5760, 8232, 8233, 8239, 8287, 12288, 65279}
     \<or> (8192 \<le> c \<and> c \<le> 8202)"

definition is_digit :: "nat \<Rightarrow> bool" where
  "is_digit c \<longleftrightarrow> 48 \<le> c \<and> c \<le> 57"

text \<open>
  Matching under the \<^verbatim>\<open>i\<close> flag: a pattern character \<open>p\<close> of the ASCII range
  matches the code unit \<open>c\<close> when both have the same upper-case form. No code unit
  outside ASCII is canonicalised to an ASCII letter, so only the two ASCII spellings match.
\<close>

definition matches_ci :: "nat \<Rightarrow> nat \<Rightarrow> bool" where
  "matches_ci p c \<longleftrightarrow>
     c = p \<or> (97 \<le> p \<and> p \<le> 122 \<and> c + 32 = p) \<or> (65 \<le> p \<and> p \<le> 90 \<and> c = p + 32)"

fun starts_with_ci :: "jsstring \<Rightarrow> jsstring \<Rightarrow> bool" where
  "starts_with_ci [] s = True"
| "starts_with_ci (p # ps) [] = False"
| "starts_with_ci (p # ps) (c # cs) = (matches_ci p c \<and> starts_with_ci ps cs)"

section \<open>icons/index.js: the icon catalog\<close>

definition iconPaths :: "(string \<times> string) list" where
  "iconPaths =
    [(''add'', ''add.svg''), (''arrow-left'', ''arrow-left.svg''),
     (''arrow-right'', ''arrow-right.svg''), (''cancel'', ''cancel.svg''),
     (''contrast'', ''contrast.svg''), (''delete'', ''delete.svg''), (''done'', ''done.svg''),
     (''exit'', ''exit.svg''), (''extention'', ''extention.svg''),
     (''favicon'', ''favicon.svg''), (''help'', ''help.svg''), (''home'', ''home.svg''),
     (''info'', ''info.svg''), (''large'', ''large.svg''), (''lowpos'', ''lowpos.svg''),
     (''minus'', ''minus.svg''), (''ok'', ''ok.svg''), (''order'', ''order.svg''),
     (''pay'', ''pay.svg''), (''placeholder'', ''placeholder.svg''), (''plus'', ''plus.svg''),
     (''print'', ''print.svg''), (''reset'', ''reset.svg''), (''restart'', ''restart.svg''),
     (''soldout-large'', ''soldout-large.svg''), (''soldout-small'', ''soldout-small.svg''),
     (''step'', ''step.svg''), (''takein'', ''takein.svg''), (''takeout'', ''takeout.svg''),
     (''time'', ''time.svg''), (''toggle'', ''toggle.svg''), (''volume'', ''volume.svg''),
     (''warning'', ''warning.svg'')]"

definition getIconPath :: "string \<Rightarrow> string" where
  "getIconPath iconKey =
     (case map_of iconPaths iconKey of
        None \<Rightarrow> ''./assets/icons/placeholder.svg''
      | Some filename \<Rightarrow>
          if filename = [] then ''./assets/icons/placeholder.svg''
          else ''./assets/icons/'' @ filename)"

text \<open>
  The selector of an entry is the attribute selector \<^verbatim>\<open>[data-icon="key"]\<close>; it is kept
  as the key it tests for, not as text.
\<close>

datatype selector = DataIcon string

record icon_config =
  path :: string
  selector :: selector

text \<open>\<^verbatim>\<open>Object.entries\<close> of the map, in insertion order.\<close>

definition createIconMap :: "(string \<times> icon_config) list" where
  "createIconMap =
     map (\<lambda>(key, filename). (key, \<lparr>path = getIconPath key, selector = DataIcon key\<rparr>))
       iconPaths"

definition fallbackIcon :: string where
  "fallbackIcon = ''placeholder''"

section \<open>SVGLoader.convertToCurrentColor\<close>

text \<open>
  The lookahead \<^verbatim>\<open>(?!none|transparent)\<close>: the text at this position begins with one
  of the two words, in any case.
\<close>

definition excluded_value :: "jsstring \<Rightarrow> bool" where
  "excluded_value v \<longleftrightarrow>
     starts_with_ci (js ''none'') v \<or> starts_with_ci (js ''transparent'') v"

text \<open>
  \<^verbatim>\<open>/name="(?!none|transparent)[^"]*"/i\<close> tried at the head of \<open>s\<close>, for the quote
  \<open>q\<close>: the length of the match. The class \<^verbatim>\<open>[^"]*\<close> runs to the first quote, so
  the match is unique.
\<close>

definition match_attr :: "jsstring \<Rightarrow> nat \<Rightarrow> jsstring \<Rightarrow> nat option" where
  "match_attr name q s =
     (let opening = name @ [61, q] in
      if \<not> starts_with_ci opening s then None
      else
        let v = drop (length opening) s in
        if excluded_value v then None
        else if q \<in> set v then Some (length opening + length (takeWhile (\<lambda>c. c \<noteq> q) v) + 1)
        else None)"

text \<open>
  \<^verbatim>\<open>/name:\s*(?!none|transparent)[^;}\s]+/i\<close> tried at the head of \<open>s\<close>. Only the
  longest run of white space can lead to a match: after a shorter one the next character
  is white space, which \<^verbatim>\<open>[^;}\s]+\<close> refuses.
\<close>

definition match_style :: "jsstring \<Rightarrow> jsstring \<Rightarrow> nat option" where
  "match_style name s =
     (let opening = name @ [58] in
      if \<not> starts_with_ci opening s then None
      else
        let rest = drop (length opening) s;
            ws = takeWhile is_space rest;
            v = dropWhile is_space rest;
            run = takeWhile (\<lambda>c. c \<noteq> 59 \<and> c \<noteq> 125 \<and> \<not> is_space c) v
        in if excluded_value v \<or> run = [] then None
           else Some (length opening + length ws + length run))"

text \<open>
  \<^verbatim>\<open>String.prototype.replace\<close> with a global pattern and a replacement text without
  \<^verbatim>\<open>$\<close>: the scan tries the pattern at each position from the left, and continues
  behind a match. \<open>m\<close> gives the length of the match at the head, at least one for the
  patterns above.
\<close>

fun replace_global :: "(jsstring \<Rightarrow> nat option) \<Rightarrow> jsstring \<Rightarrow> jsstring \<Rightarrow> jsstring" where
  "replace_global m r [] = []"
| "replace_global m r (c # cs) =
     (case m (c # cs) of
        None \<Rightarrow> c # replace_global m r cs
      | Some n \<Rightarrow> r @ replace_global m r (drop (n - 1) cs))"

definition attr_currentColor :: "jsstring \<Rightarrow> nat \<Rightarrow> jsstring" where
  "attr_currentColor name q = name @ [61, q] @ js ''currentColor'' @ [q]"

definition style_currentColor :: "jsstring \<Rightarrow> jsstring" where
  "style_currentColor name = name @ js '': currentColor''"

definition convertToCurrentColor :: "jsstring \<Rightarrow> jsstring" where
  "convertToCurrentColor svgMarkup =
     (replace_global (match_style (js ''stroke'')) (style_currentColor (js ''stroke''))
     (replace_global (match_style (js ''fill'')) (style_currentColor (js ''fill''))
     (replace_global (match_attr (js ''stroke'') SQ) (attr_currentColor (js ''stroke'') SQ)
     (replace_global (match_attr (js ''fill'') SQ) (attr_currentColor (js ''fill'') SQ)
     (replace_global (match_attr (js ''stroke'') DQ) (attr_currentColor (js ''stroke'') DQ)
     (replace_global (match_attr (js ''fill'') DQ) (attr_currentColor (js ''fill'') DQ)
        svgMarkup))))))"

section \<open>SVGLoader.preloadAllIcons\<close>

text \<open>
  A rejected promise or a thrown error is a value \<open>Inl e\<close>. A response has its
  \<^verbatim>\<open>ok\<close> flag and the outcome of \<^verbatim>\<open>text()\<close>. The network answers each request on
  its own: a request is named by the key whose callback makes it, the attempt and the path.
  Every request settles: a promise that stays pending for ever has no value here.
\<close>

datatype exn = TransportError | SvgNotFound string | BodyError

record response =
  ok :: bool
  text_body :: "exn + jsstring"

datatype attempt = Primary | Fallback

type_synonym network = "string \<Rightarrow> attempt \<Rightarrow> string \<Rightarrow> exn + response"

text \<open>
  The cache is a \<^verbatim>\<open>Map\<close>: \<^verbatim>\<open>set\<close> overwrites the entry of a key it has, and
  appends an entry otherwise.
\<close>

type_synonym cache = "(string \<times> jsstring) list"

definition cache_set :: "string \<Rightarrow> jsstring \<Rightarrow> cache \<Rightarrow> cache" where
  "cache_set key v c = AList.update key v c"

definition cache_get :: "cache \<Rightarrow> string \<Rightarrow> jsstring option" where
  "cache_get c key = map_of c key"

definition try_catch :: "exn + 'a \<Rightarrow> (exn \<Rightarrow> exn + 'a) \<Rightarrow> exn + 'a" where
  "try_catch body handler = (case body of Inl e \<Rightarrow> handler e | Inr v \<Rightarrow> Inr v)"

definition bind_exn :: "exn + 'a \<Rightarrow> ('a \<Rightarrow> exn + 'b) \<Rightarrow> exn + 'b" where
  "bind_exn m f = (case m of Inl e \<Rightarrow> Inl e | Inr v \<Rightarrow> f v)"

text \<open>The callback of \<^verbatim>\<open>Object.entries(this.iconMap).map\<close>, for one entry.\<close>

definition loadIcon :: "network \<Rightarrow> cache \<Rightarrow> string \<times> icon_config \<Rightarrow> exn + cache" where
  "loadIcon fetch c entry =
     (case entry of (key, config) \<Rightarrow>
        try_catch
          (bind_exn (fetch key Primary (path config)) (\<lambda>response.
             if \<not> ok response then Inl (SvgNotFound (path config))
             else bind_exn (text_body response) (\<lambda>svgMarkup.
               Inr (cache_set key svgMarkup c))))
          (\<lambda>error.
             try_catch
               (let fallbackPath = getIconPath fallbackIcon in
                bind_exn (fetch key Fallback fallbackPath) (\<lambda>fallback.
                  if ok fallback
                  then bind_exn (text_body fallback) (\<lambda>t. Inr (cache_set key t c))
                  else Inr (cache_set key [] c)))
               (\<lambda>fallbackError. Inr (cache_set key [] c))))"

text \<open>
  \<^verbatim>\<open>await Promise.all(loadPromises)\<close>: the callbacks run interleaved, and each writes
  the cache once, when its last request has settled. \<open>completion\<close> is the order in which
  they finish, a permutation of the entries; the promise rejects when a callback does.
\<close>

fun settle_all :: "network \<Rightarrow> (string \<times> icon_config) list \<Rightarrow> cache \<Rightarrow> exn + cache" where
  "settle_all fetch [] c = Inr c"
| "settle_all fetch (e # es) c =
     (case loadIcon fetch c e of
        Inl x \<Rightarrow> Inl x
      | Inr c' \<Rightarrow> settle_all fetch es c')"

definition preloadAllIcons ::
  "network \<Rightarrow> (string \<times> icon_config) list \<Rightarrow> cache \<Rightarrow> exn + cache" where
  "preloadAllIcons fetch completion c = settle_all fetch completion c"

text \<open>
  A fetch succeeds with markup \<open>m\<close> when the request resolves, the response is
  \<^verbatim>\<open>ok\<close> and its body is read; otherwise it fails.
\<close>

definition markup_of :: "exn + response \<Rightarrow> jsstring option" where
  "markup_of r =
     (case r of
        Inl e \<Rightarrow> None
      | Inr resp \<Rightarrow>
          if ok resp then (case text_body resp of Inl e \<Rightarrow> None | Inr m \<Rightarrow> Some m)
          else None)"

text \<open>What the callback of one entry stores under its key.\<close>

definition stored :: "network \<Rightarrow> string \<times> icon_config \<Rightarrow> jsstring" where
  "stored fetch e =
     (case markup_of (fetch (fst e) Primary (path (snd e))) of
        Some m \<Rightarrow> m
      | None \<Rightarrow> (case markup_of (fetch (fst e) Fallback (getIconPath fallbackIcon)) of
                   Some m \<Rightarrow> m | None \<Rightarrow> []))"

section \<open>SVGLoader.injectAllIcons\<close>

text \<open>
  The document is a tree of elements and text nodes. An element has the value of its
  \<^verbatim>\<open>data-icon\<close> attribute, its class list and its child nodes.
  \<^verbatim>\<open>querySelectorAll\<close> lists the matching elements in document order. The fragment
  parser that the assignment \<^verbatim>\<open>el.innerHTML = processedSvg\<close> runs on the markup, in
  the context of \<open>el\<close>, is a parameter: its result becomes the child nodes of \<open>el\<close>.

  \<open>forEach_target\<close> is \<^verbatim>\<open>targets.forEach\<close> with its callback, as it shows in the
  document. The targets are visited in document order, an element before the elements
  inside it. Once the content of a target has been replaced, the targets inside it have
  left the document, and what the callback does to them later is not seen in the document.
  A target that is still in the document has the ancestors it had before the loop, so
  \<^verbatim>\<open>el.closest('.toggle')\<close> is decided by its own class list and by \<open>inToggle\<close>:
  an ancestor has the class \<^verbatim>\<open>toggle\<close>.
\<close>

datatype dom =
    Element (data_icon: "string option") (classList: "string list") (childNodes: "dom list")
  | Text jsstring
where
  "data_icon (Text s) = None"
| "classList (Text s) = []"
| "childNodes (Text s) = []"

type_synonym parser = "dom \<Rightarrow> jsstring \<Rightarrow> dom list"

fun matches_selector :: "selector \<Rightarrow> dom \<Rightarrow> bool" where
  "matches_selector (DataIcon key) el = (data_icon el = Some key)"

fun querySelectorAll :: "selector \<Rightarrow> dom \<Rightarrow> dom list" where
  "querySelectorAll sel (Text s) = []"
| "querySelectorAll sel (Element di cl ch) =
     (if matches_selector sel (Element di cl ch) then [Element di cl ch] else [])
       @ concat (map (querySelectorAll sel) ch)"


fun forEach_target :: "parser \<Rightarrow> jsstring \<Rightarrow> selector \<Rightarrow> bool \<Rightarrow> dom \<Rightarrow> dom" where
  "forEach_target parse processedSvg sel inToggle (Text s) = Text s"
| "forEach_target parse processedSvg sel inToggle (Element di cl ch) =
     (let el = Element di cl ch;
          closestToggle = (inToggle \<or> ''toggle'' \<in> set cl)
      in if matches_selector sel el \<and> \<not> (closestToggle \<and> ''pressed'' \<in> set cl)
         then Element di cl (parse el processedSvg)
         else Element di cl (map (forEach_target parse processedSvg sel closestToggle) ch))"



section \<open>StyleManager: contrast calculation\<close>

text \<open>
  The callback of \<^verbatim>\<open>[r, g, b].map\<close> inside \<^verbatim>\<open>getLuminance\<close>:
  \<^verbatim>\<open>c = c / 255; return c <= 0.03928 ? c / 12.92 : Math.pow((c + 0.055) / 1.055, 2.4)\<close>.
  In the second branch the base is positive, where \<^verbatim>\<open>Math.pow\<close> is the real power.
\<close>

definition channel_luminance :: "real \<Rightarrow> real" where
  "channel_luminance c0 =
     (let c = c0 / 255
      in if c \<le> 0.03928 then c / 12.92 else ((c + 0.055) / 1.055) powr 2.4)"

definition getLuminance :: "real \<Rightarrow> real \<Rightarrow> real \<Rightarrow> real" where
  "getLuminance r g b =
     (let rs = channel_luminance r; gs = channel_luminance g; bs = channel_luminance b
      in 0.2126 * rs + 0.7152 * gs + 0.0722 * bs)"

definition calculateContrastRGBA ::
  "real \<Rightarrow> real \<Rightarrow> real \<Rightarrow> real \<Rightarrow> real \<Rightarrow> real \<Rightarrow> real" where
  "calculateContrastRGBA r1 g1 b1 r2 g2 b2 =
     (let lum1 = getLuminance r1 g1 b1;
          lum2 = getLuminance r2 g2 b2;
          brightest = max lum1 lum2;
          darkest = min lum1 lum2
      in (brightest + 0.05) / (darkest + 0.05))"

section \<open>StyleManager: parsing colours\<close>

text \<open>
  A channel is a number or \<^verbatim>\<open>NaN\<close> (what \<^verbatim>\<open>parseInt\<close> gives for a text without
  a leading hexadecimal digit). The two \<^verbatim>\<open>throw new Error\<close> of \<^verbatim>\<open>getRGB\<close> are
  the two errors.
\<close>

datatype number = NaN | Num real

datatype error = InvalidColor | ParseFailure jsstring

definition match_number :: "jsstring \<Rightarrow> (jsstring \<times> jsstring) option" where
  "match_number s =
     (let ip = takeWhile is_digit s; r1 = dropWhile is_digit s in
      if ip = [] then None
      else
        (case r1 of
           [] \<Rightarrow> Some (ip, r1)
         | c # r2 \<Rightarrow>
             if c = 46 \<and> takeWhile is_digit r2 \<noteq> []
             then Some (ip @ [46] @ takeWhile is_digit r2, dropWhile is_digit r2)
             else Some (ip, r1)))"

definition skip_spaces :: "jsstring \<Rightarrow> jsstring" where
  "skip_spaces s = dropWhile is_space s"

definition expect :: "nat \<Rightarrow> jsstring \<Rightarrow> jsstring option" where
  "expect c s = (case s of [] \<Rightarrow> None | x # xs \<Rightarrow> if x = c then Some xs else None)"

definition match_rgba :: "jsstring \<Rightarrow> (jsstring \<times> jsstring \<times> jsstring) option" where
  "match_rgba s =
     (if \<not> prefix (js ''rgb'') s then None
      else
        let s1 = drop 3 s;
            s2 = (case s1 of [] \<Rightarrow> s1 | c # t \<Rightarrow> if c = 97 then t else s1)
        in
        Option.bind (expect 40 s2) (\<lambda>s3.
        Option.bind (match_number (skip_spaces s3)) (\<lambda>(n1, s4).
        Option.bind (expect 44 (skip_spaces s4)) (\<lambda>s5.
        Option.bind (match_number (skip_spaces s5)) (\<lambda>(n2, s6).
        Option.bind (expect 44 (skip_spaces s6)) (\<lambda>s7.
        Option.bind (match_number (skip_spaces s7)) (\<lambda>(n3, s8).
        Some (n1, n2, n3))))))))"

fun search_rgba :: "jsstring \<Rightarrow> (jsstring \<times> jsstring \<times> jsstring) option" where
  "search_rgba [] = match_rgba []"
| "search_rgba (c # cs) =
     (case match_rgba (c # cs) of
        Some g \<Rightarrow> Some g
      | None \<Rightarrow> search_rgba cs)"

definition digits_value :: "jsstring \<Rightarrow> nat" where
  "digits_value ds = foldl (\<lambda>a c. 10 * a + (c - 48)) 0 ds"

definition parseFloat :: "jsstring \<Rightarrow> real" where
  "parseFloat s =
     (let ip = takeWhile is_digit s; r = dropWhile is_digit s in
      case r of
        [] \<Rightarrow> real (digits_value ip)
      | c # fp \<Rightarrow> real (digits_value ip) + real (digits_value fp) / 10 ^ length fp)"

definition Math_round :: "real \<Rightarrow> real" where
  "Math_round x = of_int \<lfloor>x + 1 / 2\<rfloor>"

definition hex_digit :: "nat \<Rightarrow> nat option" where
  "hex_digit c =
     (if 48 \<le> c \<and> c \<le> 57 then Some (c - 48)
      else if 97 \<le> c \<and> c \<le> 102 then Some (c - 87)
      else if 65 \<le> c \<and> c \<le> 70 then Some (c - 55)
      else None)"

definition hex_value :: "jsstring \<Rightarrow> nat" where
  "hex_value ds = foldl (\<lambda>a c. 16 * a + (case hex_digit c of None \<Rightarrow> 0 | Some d \<Rightarrow> d)) 0 ds"

definition parseInt16 :: "jsstring \<Rightarrow> number" where
  "parseInt16 s =
     (let s1 = dropWhile is_space s;
          negative = (case s1 of [] \<Rightarrow> False | c # t \<Rightarrow> c = 45);
          s2 = (case s1 of [] \<Rightarrow> s1 | c # t \<Rightarrow> if c = 45 \<or> c = 43 then t else s1);
          s3 = (case s2 of
                  c # x # t \<Rightarrow> if c = 48 \<and> (x = 120 \<or> x = 88) then t else s2
                | _ \<Rightarrow> s2);
          ds = takeWhile (\<lambda>c. hex_digit c \<noteq> None) s3
      in if ds = [] then NaN
         else if negative then Num (- real (hex_value ds)) else Num (real (hex_value ds)))"

definition substr :: "jsstring \<Rightarrow> nat \<Rightarrow> nat \<Rightarrow> jsstring" where
  "substr s start len = take len (drop start s)"

definition getRGB :: "jsstring \<Rightarrow> error + number \<times> number \<times> number" where
  "getRGB color =
     (if color = [] \<or> color = js ''transparent'' then Inl InvalidColor
      else
        (case search_rgba color of
           Some (m1, m2, m3) \<Rightarrow>
             Inr (Num (Math_round (parseFloat m1)),
                  Num (Math_round (parseFloat m2)),
                  Num (Math_round (parseFloat m3)))
         | None \<Rightarrow>
             if prefix (js ''#'') color \<and> length (remove1 35 color) \<ge> 6
             then let hex = remove1 35 color in
               Inr (parseInt16 (substr hex 0 2), parseInt16 (substr hex 2 2),
                    parseInt16 (substr hex 4 2))
             else Inl (ParseFailure color)))"


definition calculateContrastRGBA_number ::
  "number \<Rightarrow> number \<Rightarrow> number \<Rightarrow> number \<Rightarrow> number \<Rightarrow> number \<Rightarrow> number" where
  "calculateContrastRGBA_number r1 g1 b1 r2 g2 b2 =
     (case (r1, g1, b1, r2, g2, b2) of
        (Num x1, Num y1, Num z1, Num x2, Num y2, Num z2) \<Rightarrow>
          Num (calculateContrastRGBA x1 y1 z1 x2 y2 z2)
      | _ \<Rightarrow> NaN)"

definition calculateContrast :: "jsstring \<Rightarrow> jsstring \<Rightarrow> error + number" where
  "calculateContrast color1 color2 =
     (case getRGB color1 of
        Inl e \<Rightarrow> Inl e
      | Inr (r1, g1, b1) \<Rightarrow>
          (case getRGB color2 of
             Inl e \<Rightarrow> Inl e
           | Inr (r2, g2, b2) \<Rightarrow> Inr (calculateContrastRGBA_number r1 g1 b1 r2 g2 b2)))"

text \<open>
  \<^verbatim>\<open>toFixed(2)\<close>: the sign, then the nearest multiple of 1/100 (the larger one at a
  tie) in decimal notation with two fraction digits. This is what the source gives below
  \<^verbatim>\<open>1e21\<close>; beyond, it switches to exponent notation, which is not modelled (a
  ratio of two colours with channels up to 255 is at most 21).
\<close>

fun decimal :: "nat \<Rightarrow> jsstring" where
  "decimal n = (if n < 10 then [48 + n] else decimal (n div 10) @ [48 + n mod 10])"

declare decimal.simps [simp del]

definition fixed2 :: "real \<Rightarrow> jsstring" where
  "fixed2 x =
     (let n = nat \<lfloor>x * 100 + 1 / 2\<rfloor>
      in decimal (n div 100) @ [46, 48 + (n mod 100) div 10, 48 + n mod 10])"

definition toFixed2 :: "number \<Rightarrow> jsstring" where
  "toFixed2 v =
     (case v of
        NaN \<Rightarrow> js ''NaN''
      | Num x \<Rightarrow> if x < 0 then 45 # fixed2 (- x) else fixed2 x)"

fun before_br :: "jsstring \<Rightarrow> jsstring" where
  "before_br [] = []"
| "before_br (c # cs) = (if prefix (js ''<br>'') (c # cs) then [] else c # before_br cs)"

record button =
  label :: "jsstring option"
  backgroundColor :: jsstring
  color :: jsstring

definition update_label :: "button \<Rightarrow> error + button" where
  "update_label b =
     (case label b of
        None \<Rightarrow> Inr b
      | Some html \<Rightarrow>
          (case calculateContrast (color b) (backgroundColor b) of
             Inl e \<Rightarrow> Inl e
           | Inr contrast \<Rightarrow>
               let contrastRatio = toFixed2 contrast;
                   labelText = before_br html
               in Inr (b\<lparr>label := Some (labelText @ js ''<br>'' @ contrastRatio)\<rparr>)))"

fun updateButtonLabels :: "button list \<Rightarrow> button list \<times> error option" where
  "updateButtonLabels [] = ([], None)"
| "updateButtonLabels (b # bs) =
     (case update_label b of
        Inl e \<Rightarrow> (b # bs, Some e)
      | Inr b' \<Rightarrow> (case updateButtonLabels bs of (bs', r) \<Rightarrow> (b' # bs', r)))"

section \<open>The click listeners\<close>

text \<open>
  The page as a click reads and writes it: the elements from the event's target outwards
  (the target first), each with its classes and the three attributes the listeners look
  at, and the number of \<^verbatim>\<open>scheduleUpdate\<close> calls. \<open>closest sel\<close> is the index of
  the nearest element that \<open>sel\<close> accepts.
\<close>

record node =
  classes :: "string list"
  aria_disabled :: "string option"
  aria_pressed :: "string option"
  data_isToggleButton :: "string option"

record click_event =
  defaultPrevented :: bool
  propagationStopped :: bool
  immediateStopped :: bool

record page =
  target_path :: "node list"
  scheduled_updates :: nat

fun closest :: "(node \<Rightarrow> bool) \<Rightarrow> node list \<Rightarrow> nat option" where
  "closest sel [] = None"
| "closest sel (x # xs) = (if sel x then Some 0 else map_option Suc (closest sel xs))"

definition is_button :: "node \<Rightarrow> bool" where
  "is_button x \<longleftrightarrow> ''button'' \<in> set (classes x)"

definition is_disabled_button :: "node \<Rightarrow> bool" where
  "is_disabled_button x \<longleftrightarrow> ''button'' \<in> set (classes x) \<and> aria_disabled x = Some ''true''"

type_synonym handler = "click_event \<times> page \<Rightarrow> click_event \<times> page"

definition toggle_click :: handler where
  "toggle_click st =
     (case st of (event, pg) \<Rightarrow>
        (case closest is_button (target_path pg) of
           None \<Rightarrow> (event, pg)
         | Some i \<Rightarrow>
             let button = target_path pg ! i in
             if aria_disabled button = Some ''true''
                \<or> data_isToggleButton button \<noteq> Some ''true''
             then (event, pg)
             else
               let wasPressed = ''pressed'' \<in> set (classes button);
                   button' =
                     (if wasPressed
                      then button\<lparr>classes := removeAll ''pressed'' (classes button),
                                  aria_pressed := Some ''false''\<rparr>
                      else button\<lparr>classes := classes button @ [''pressed''],
                                  aria_pressed := Some ''true''\<rparr>)
               in (event, pg\<lparr>target_path := (target_path pg)[i := button'],
                              scheduled_updates := Suc (scheduled_updates pg)\<rparr>)))"

definition blockDisabledButtonEvents :: handler where
  "blockDisabledButtonEvents st =
     (case st of (event, pg) \<Rightarrow>
        (case closest is_disabled_button (target_path pg) of
           None \<Rightarrow> (event, pg)
         | Some disabledButton \<Rightarrow>
             (event\<lparr>defaultPrevented := True, propagationStopped := True,
                     immediateStopped := True\<rparr>, pg)))"

text \<open>
  The two \<^verbatim>\<open>click\<close> listeners that the source registers on the document, in the
  order of registration, each with its \<^verbatim>\<open>useCapture\<close> argument. A click first
  reaches the capturing listeners of the document, then the listeners of the elements on
  the way to the target and back (\<open>below\<close>: one list for each stop of the event, in the
  order of the stops; the source registers none, other scripts may), then the bubbling
  listeners of the document. The listeners of one stop run until one of them stops
  immediate propagation; the event moves to the next stop unless propagation has been
  stopped. The trace records the listeners that were called.
\<close>

record listener =
  listener_name :: string
  useCapture :: bool
  callback :: handler

definition document_click_listeners :: "listener list" where
  "document_click_listeners =
     [\<lparr>listener_name = ''toggle'', useCapture = False, callback = toggle_click\<rparr>,
      \<lparr>listener_name = ''blockDisabledButtonEvents'', useCapture = True,
        callback = blockDisabledButtonEvents\<rparr>]"

type_synonym dispatch_state = "(click_event \<times> page) \<times> string list"

fun invoke :: "listener list \<Rightarrow> dispatch_state \<Rightarrow> dispatch_state" where
  "invoke [] st = st"
| "invoke (l # ls) (s, trace) =
     (if immediateStopped (fst s) then (s, trace)
      else invoke ls (callback l s, trace @ [listener_name l]))"

fun invoke_below :: "listener list list \<Rightarrow> dispatch_state \<Rightarrow> dispatch_state" where
  "invoke_below [] st = st"
| "invoke_below (ls # lss) (s, trace) =
     (if propagationStopped (fst s) then (s, trace)
      else invoke_below lss (invoke ls (s, trace)))"

definition dispatch_click :: "listener list list \<Rightarrow> page \<Rightarrow> dispatch_state" where
  "dispatch_click below pg =
     (let event = \<lparr>defaultPrevented = False, propagationStopped = False,
                    immediateStopped = False\<rparr>;
          st1 = invoke (filter useCapture document_click_listeners) ((event, pg), [])
      in if propagationStopped (fst (fst st1)) then st1
         else
           let st2 = invoke_below below st1
           in if propagationStopped (fst (fst st2)) then st2
              else invoke (filter (\<lambda>l. \<not> useCapture l) document_click_listeners) st2)"

section \<open>The arrow-key listener\<close>

text \<open>
  The elements of class \<^verbatim>\<open>button\<close> in document order, each with an identity,
  whether its \<^verbatim>\<open>offsetParent\<close> is not null, and the showcase that
  \<^verbatim>\<open>closest('.showcase')\<close> finds (\<open>None\<close> for null). The active element is given
  when it has the class \<^verbatim>\<open>button\<close>. The result is whether the default action was
  prevented, and the element whose \<^verbatim>\<open>focus()\<close> is called.
\<close>

datatype key = ArrowDown | ArrowUp | ArrowRight | ArrowLeft | Home | End | OtherKey

record nav_button =
  ident :: nat
  visible :: bool
  showcase :: "nat option"

record nav_result =
  prevented :: bool
  focus_call :: "nav_button option"

definition isArrowKey :: "key \<Rightarrow> bool" where
  "isArrowKey k \<longleftrightarrow> k \<in> {ArrowDown, ArrowUp, ArrowRight, ArrowLeft, Home, End}"

fun indexOf :: "nav_button list \<Rightarrow> nav_button \<Rightarrow> nat option" where
  "indexOf [] b = None"
| "indexOf (x # xs) b = (if ident x = ident b then Some 0 else map_option Suc (indexOf xs b))"

definition arrowDown_target :: "nav_button list \<Rightarrow> nat \<Rightarrow> nav_button \<Rightarrow> nav_button option" where
  "arrowDown_target allButtons currentIndex focusedButton =
     (let currentContainer = showcase focusedButton;
          n = length allButtons
      in case find (\<lambda>i. showcase (allButtons ! ((currentIndex + i) mod n)) \<noteq> currentContainer)
                [1..<n] of
           None \<Rightarrow> None
         | Some i \<Rightarrow> Some (allButtons ! ((currentIndex + i) mod n)))"

definition arrowUp_target :: "nav_button list \<Rightarrow> nat \<Rightarrow> nav_button \<Rightarrow> nav_button option" where
  "arrowUp_target allButtons currentIndex focusedButton =
     (let currentContainerUp = showcase focusedButton;
          n = length allButtons
      in case find (\<lambda>i. showcase (allButtons ! ((currentIndex + n - i) mod n)) \<noteq> currentContainerUp)
                [1..<n] of
           None \<Rightarrow> None
         | Some i \<Rightarrow>
             let prevContainer = showcase (allButtons ! ((currentIndex + n - i) mod n));
                 buttonsInPrevContainer = filter (\<lambda>btn. showcase btn = prevContainer) allButtons
             in (case buttonsInPrevContainer of [] \<Rightarrow> None | t # ts \<Rightarrow> Some t))"

definition arrowNavigation :: "nav_button list \<Rightarrow> nav_button option \<Rightarrow> key \<Rightarrow> nav_result" where
  "arrowNavigation doc activeButton k =
     (case activeButton of
        None \<Rightarrow>
          if isArrowKey k
          then \<lparr>prevented = True,
                focus_call = (case doc of [] \<Rightarrow> None | firstButton # rest \<Rightarrow> Some firstButton)\<rparr>
          else \<lparr>prevented = False, focus_call = None\<rparr>
      | Some focusedButton \<Rightarrow>
          let allButtons = filter visible doc in
          if length allButtons = 0 then \<lparr>prevented = False, focus_call = None\<rparr>
          else
            (case indexOf allButtons focusedButton of
               None \<Rightarrow> \<lparr>prevented = False, focus_call = None\<rparr>
             | Some currentIndex \<Rightarrow>
                 (case k of
                    ArrowRight \<Rightarrow>
                      \<lparr>prevented = True,
                       focus_call = Some (allButtons ! ((currentIndex + 1) mod length allButtons))\<rparr>
                  | ArrowLeft \<Rightarrow>
                      \<lparr>prevented = True,
                       focus_call = Some (allButtons !
                         (if currentIndex = 0 then length allButtons - 1 else currentIndex - 1))\<rparr>
                  | ArrowDown \<Rightarrow>
                      \<lparr>prevented = True,
                       focus_call = arrowDown_target allButtons currentIndex focusedButton\<rparr>
                  | ArrowUp \<Rightarrow>
                      \<lparr>prevented = True,
                       focus_call = arrowUp_target allButtons currentIndex focusedButton\<rparr>
                  | Home \<Rightarrow> \<lparr>prevented = True, focus_call = Some (allButtons ! 0)\<rparr>
                  | End \<Rightarrow>
                      \<lparr>prevented = True,
                       focus_call = Some (allButtons ! (length allButtons - 1))\<rparr>
                  | OtherKey \<Rightarrow> \<lparr>prevented = False, focus_call = None\<rparr>)))"

section \<open>Notions of the specification\<close>

text \<open>
  Nodes are named by their path from the root: the child indices on the way down.
  \<open>closest_toggle inside doc p\<close>: the node at \<open>p\<close> or an element above it has the
  class \<^verbatim>\<open>toggle\<close> (\<open>inside\<close> says so for the elements above the root; it is
  \<open>False\<close> for the document). A target is an element that the selector matches and the
  callback does not skip. A node is reached when no element above it is a target: it is
  still in the document when the loop ends. \<open>node_after\<close> relates a reached node to the
  node at the same path afterwards: a target has the parsed markup as child nodes, any
  other node keeps its attributes and the number of its children, and a text node is
  unchanged. \<open>states\<close> lists the states that a loop goes through.
\<close>

fun node_at :: "dom \<Rightarrow> nat list \<Rightarrow> dom option" where
  "node_at n [] = Some n"
| "node_at n (i # p) =
     (if i < length (childNodes n) then node_at (childNodes n ! i) p else None)"





fun states :: "('a \<Rightarrow> 's \<Rightarrow> 's) \<Rightarrow> 'a list \<Rightarrow> 's \<Rightarrow> 's list" where
  "states f [] s = [s]"
| "states f (x # xs) s = s # states f xs (f x s)"

text \<open>
  A colour whose channels parse to values in the range 0 to 255.
\<close>

fun valid_channel :: "number \<Rightarrow> bool" where
  "valid_channel NaN = False"
| "valid_channel (Num x) = (0 \<le> x \<and> x \<le> 255)"

definition valid_color :: "jsstring \<Rightarrow> bool" where
  "valid_color c =
     (case getRGB c of
        Inl e \<Rightarrow> False
      | Inr (r, g, b) \<Rightarrow> valid_channel r \<and> valid_channel g \<and> valid_channel b)"

text \<open>
  The contrast computation of a button fails when it has a label and one of its two
  colours does not parse. \<open>relabelled b b'\<close>: the pass has rewritten the label of
  \<open>b\<close> (if it has one) to its primary text, a line break and the ratio.
\<close>

definition contrast_fails :: "button \<Rightarrow> bool" where
  "contrast_fails b \<longleftrightarrow>
     label b \<noteq> None \<and> isl (calculateContrast (color b) (backgroundColor b))"

definition relabelled :: "button \<Rightarrow> button \<Rightarrow> bool" where
  "relabelled b b' =
     (case label b of
        None \<Rightarrow> b' = b
      | Some html \<Rightarrow>
          (\<exists>x. calculateContrast (color b) (backgroundColor b) = Inr x
             \<and> b' = b\<lparr>label := Some (before_br html @ js ''<br>'' @ toFixed2 x)\<rparr>))"

section \<open>Directives in markup\<close>

text \<open>
  The notions in which the behaviour of \<open>convertToCurrentColor\<close> is stated. \<open>lower\<close>
  folds the ASCII capitals; a name is \<^verbatim>\<open>fill\<close> or \<^verbatim>\<open>stroke\<close>; a separator is
  \<^verbatim>\<open>=\<close> or \<^verbatim>\<open>:\<close>.
\<close>

definition lower :: "nat \<Rightarrow> nat" where
  "lower c = (if 65 \<le> c \<and> c \<le> 90 then c + 32 else c)"

definition letter :: "nat \<Rightarrow> bool" where
  "letter c \<longleftrightarrow> 97 \<le> lower c \<and> lower c \<le> 122"

definition sep :: "nat \<Rightarrow> bool" where
  "sep c \<longleftrightarrow> c = 61 \<or> c = 58"

definition is_name :: "jsstring \<Rightarrow> bool" where
  "is_name nm \<longleftrightarrow> nm = js ''fill'' \<or> nm = js ''stroke''"

text \<open>A position where one of the six patterns can begin: a spelling of fill or stroke
  followed by = or :.\<close>

definition hit :: "jsstring \<Rightarrow> bool" where
  "hit s \<longleftrightarrow>
     is_name (map lower (takeWhile letter s))
     \<and> (case dropWhile letter s of [] \<Rightarrow> False | c # cs \<Rightarrow> sep c)"

definition quiet :: "jsstring \<Rightarrow> bool" where
  "quiet p \<longleftrightarrow> (\<forall>i < length p. \<not> hit (drop i p))"

definition attr_directive :: "jsstring \<Rightarrow> nat \<Rightarrow> jsstring \<Rightarrow> jsstring" where
  "attr_directive N q v = N @ [61, q] @ v @ [q]"

definition style_directive :: "jsstring \<Rightarrow> jsstring \<Rightarrow> jsstring \<Rightarrow> jsstring" where
  "style_directive N ws v = N @ [58] @ ws @ v"

definition stop_char :: "nat \<Rightarrow> bool" where
  "stop_char c \<longleftrightarrow> c = 59 \<or> c = 125 \<or> is_space c"

text \<open>
  \<open>boundary t\<close>: the text \<open>t\<close> is empty or begins with a character that is neither a
  letter nor a separator. A matcher is sound when it matches only where a pattern can
  begin. \<open>headed x\<close>: the text is empty or begins with a spelling of a name followed by a
  character that is not a letter.
\<close>

definition boundary :: "jsstring \<Rightarrow> bool" where
  "boundary t \<longleftrightarrow> (case t of [] \<Rightarrow> True | c # cs \<Rightarrow> \<not> letter c \<and> \<not> sep c)"

definition sound :: "(jsstring \<Rightarrow> nat option) \<Rightarrow> bool" where
  "sound m \<longleftrightarrow> (\<forall>s n. m s = Some n \<longrightarrow> hit s)"

definition headed :: "jsstring \<Rightarrow> bool" where
  "headed x \<longleftrightarrow> x = [] \<or> (\<exists>N c t. x = N @ c # t \<and> is_name (map lower N) \<and> \<not> letter c)"

text \<open>
  The six \<^verbatim>\<open>replace\<close> calls of \<open>convertToCurrentColor\<close> as a list of passes, each
  given by its name and its form: an attribute with its quote, or an inline style.
\<close>

datatype form = Attr nat | Style

fun matcher :: "jsstring \<times> form \<Rightarrow> jsstring \<Rightarrow> nat option" where
  "matcher (nm, Attr q) = match_attr nm q"
| "matcher (nm, Style) = match_style nm"

fun replacement :: "jsstring \<times> form \<Rightarrow> jsstring" where
  "replacement (nm, Attr q) = attr_currentColor nm q"
| "replacement (nm, Style) = style_currentColor nm"

definition pass :: "jsstring \<times> form \<Rightarrow> jsstring \<Rightarrow> jsstring" where
  "pass pf = replace_global (matcher pf) (replacement pf)"

fun valid_pass :: "jsstring \<times> form \<Rightarrow> bool" where
  "valid_pass (nm, Attr q) = (is_name nm \<and> (q = DQ \<or> q = SQ))"
| "valid_pass (nm, Style) = is_name nm"

definition pipeline :: "(jsstring \<times> form) list" where
  "pipeline = [(js ''fill'', Attr DQ), (js ''stroke'', Attr DQ), (js ''fill'', Attr SQ),
               (js ''stroke'', Attr SQ), (js ''fill'', Style), (js ''stroke'', Style)]"

text \<open>
  Markup as a sequence of directives, each after a stretch of other text, and the text
  after the last one. A directive is an attribute \<^verbatim>\<open>name="value"\<close> (with its quote)
  or a declaration \<^verbatim>\<open>name: value\<close> of a style (with the white space before the value).
  The value of an attribute does not contain its quote; the value of a declaration is a
  run of value characters (no white space, quote or angle bracket), and the declaration
  is closed by \<^verbatim>\<open>;\<close>, \<^verbatim>\<open>}\<close> or the end of the markup. Values contain neither
  \<^verbatim>\<open>=\<close> nor \<^verbatim>\<open>:\<close>, and no directive begins in the text between two
  directives. \<open>normalized\<close> is the directive with \<^verbatim>\<open>currentColor\<close> as value,
  unless its value begins with \<^verbatim>\<open>none\<close> or \<^verbatim>\<open>transparent\<close>.
\<close>

definition value_char :: "nat \<Rightarrow> bool" where
  "value_char c \<longleftrightarrow> \<not> stop_char c \<and> \<not> sep c \<and> c \<notin> {DQ, SQ, 60, 62}"

definition ended :: "jsstring \<Rightarrow> bool" where
  "ended t \<longleftrightarrow> (case t of [] \<Rightarrow> True | c # cs \<Rightarrow> c = 59 \<or> c = 125)"

datatype directive = Attribute jsstring nat jsstring | Declaration jsstring jsstring jsstring

fun directive_text :: "directive \<Rightarrow> jsstring" where
  "directive_text (Attribute N q v) = attr_directive N q v"
| "directive_text (Declaration N ws v) = style_directive N ws v"

fun directive_value :: "directive \<Rightarrow> jsstring" where
  "directive_value (Attribute N q v) = v"
| "directive_value (Declaration N ws v) = v"

fun currentColor_text :: "directive \<Rightarrow> jsstring" where
  "currentColor_text (Attribute N q v) = attr_directive (map lower N) q (js ''currentColor'')"
| "currentColor_text (Declaration N ws v)
     = style_directive (map lower N) [32] (js ''currentColor'')"

definition normalized :: "directive \<Rightarrow> jsstring" where
  "normalized d =
     (if excluded_value (directive_value d) then directive_text d else currentColor_text d)"

fun well_formed :: "directive \<Rightarrow> bool" where
  "well_formed (Attribute N q v) \<longleftrightarrow>
     is_name (map lower N) \<and> (q = DQ \<or> q = SQ) \<and> q \<notin> set v \<and> (\<forall>c \<in> set v. \<not> sep c)"
| "well_formed (Declaration N ws v) \<longleftrightarrow>
     is_name (map lower N) \<and> (\<forall>c \<in> set ws. is_space c) \<and> v \<noteq> []
     \<and> (\<forall>c \<in> set v. value_char c)"

fun closed_by :: "directive \<Rightarrow> jsstring \<Rightarrow> bool" where
  "closed_by (Attribute N q v) t = True"
| "closed_by (Declaration N ws v) t = ended t"

fun markup_text :: "(jsstring \<times> directive) list \<Rightarrow> jsstring \<Rightarrow> jsstring" where
  "markup_text [] rest = rest"
| "markup_text ((p, d) # items) rest = p @ directive_text d @ markup_text items rest"

fun normalized_text :: "(jsstring \<times> directive) list \<Rightarrow> jsstring \<Rightarrow> jsstring" where
  "normalized_text [] rest = rest"
| "normalized_text ((p, d) # items) rest = p @ normalized d @ normalized_text items rest"

fun segmented :: "(jsstring \<times> directive) list \<Rightarrow> jsstring \<Rightarrow> bool" where
  "segmented [] rest = quiet rest"
| "segmented ((p, d) # items) rest \<longleftrightarrow>
     quiet p \<and> well_formed d \<and> closed_by d (markup_text items rest) \<and> segmented items rest"

section \<open>Example inputs\<close>

text \<open>A network where add.svg loads, the placeholder answers the fallback requests of
  every key but home, and everything else is missing.\<close>

definition demo_network :: network where
  "demo_network key a p =
     (if p = ''./assets/icons/add.svg'' then Inr \<lparr>ok = True, text_body = Inr (js ''<svg/>'')\<rparr>
      else if a = Fallback \<and> key \<noteq> ''home''
        then Inr \<lparr>ok = True, text_body = Inr (js ''<svg id=ph/>'')\<rparr>
      else if key = ''home'' then Inl TransportError
      else Inr \<lparr>ok = False, text_body = Inr (js ''Not Found'')\<rparr>)"

definition button_off :: button where
  "button_off = \<lparr>label = Some (js ''Off''), backgroundColor = js ''rgb(255, 255, 255)'',
     color = js ''transparent''\<rparr>"

definition button_on :: button where
  "button_on = \<lparr>label = Some (js ''On<br>1.00''), backgroundColor = js ''#ffffff'',
     color = js ''rgb(0, 0, 0)''\<rparr>"

definition grid :: "nav_button list" where
  "grid = map (\<lambda>i. \<lparr>ident = i, visible = True, showcase = Some (i div 5)\<rparr>) [0..<10]"

definition hidden_first :: "nav_button list" where
  "hidden_first =
     [\<lparr>ident = 0, visible = False, showcase = Some 0\<rparr>,
      \<lparr>ident = 1, visible = True, showcase = Some 0\<rparr>]"

definition disabled_toggle_page :: page where
  "disabled_toggle_page =
     \<lparr>target_path =
        [\<lparr>classes = [''icon''], aria_disabled = None, aria_pressed = None,
           data_isToggleButton = None\<rparr>,
         \<lparr>classes = [''button'', ''toggle'', ''pressed''], aria_disabled = Some ''true'',
           aria_pressed = Some ''true'', data_isToggleButton = Some ''true''\<rparr>],
      scheduled_updates = 0\<rparr>"

definition enabled_toggle_page :: page where
  "enabled_toggle_page =
     \<lparr>target_path =
        [\<lparr>classes = [''button'', ''toggle''], aria_disabled = None,
           aria_pressed = Some ''false'', data_isToggleButton = Some ''true''\<rparr>],
      scheduled_updates = 0\<rparr>"




definition icon_markup :: "(jsstring \<times> directive) list" where
  "icon_markup =
     [(js ''<svg '', Attribute (js ''FILL'') SQ (js ''#ff0000'')),
      (js '' '', Attribute (js ''stroke'') DQ (js ''None'')),
      (js ''><style>a{'', Declaration (js ''fill'') [] (js ''red'')),
      (js '';'', Declaration (js ''Stroke'') [32] (js ''transparent''))]"

chapter \<open>Verification\<close>

section \<open>Luminance\<close>

lemma threshold_int: "(real_of_int x / 255 \<le> 0.03928) = (x \<le> 10)"
  by (auto simp: field_simps)

text \<open>
  The linear branch at channel 10 stays below the power branch at channel 11. Both sides
  are compared after raising to the fifth power, where the right side is a rational.
\<close>

lemma branch_gap: "(10 / 255 / 12.92 :: real) \<le> ((11 / 255 + 0.055) / 1.055) powr 2.4"
proof (rule ccontr)
  let ?b = "((11 / 255 + 0.055) / 1.055 :: real)"
  let ?a = "(10 / 255 / 12.92 :: real)"
  assume "\<not> ?a \<le> ?b powr 2.4"
  then have "?b powr 2.4 < ?a" by simp
  then have "(?b powr 2.4) powr 5 < ?a powr 5"
    by (intro powr_less_mono2) simp_all
  then have "?b powr 12 < ?a powr 5" by (simp add: powr_powr)
  moreover have "?b powr 12 = ?b ^ 12" by (rule powr_numeral) simp
  moreover have "?a powr 5 = ?a ^ 5" by (rule powr_numeral) simp
  ultimately have "?b ^ 12 < ?a ^ 5" by simp
  moreover have "\<not> (?b ^ 12 < ?a ^ 5)" by (simp add: power_divide divide_simps)
  ultimately show False by simp
qed

lemma channel_luminance_mono_int:
  assumes "0 \<le> x" "x \<le> y" "y \<le> 255"
  shows "channel_luminance (real_of_int x) \<le> channel_luminance (real_of_int y)"
proof -
  consider "y \<le> 10" | "11 \<le> x" | "x \<le> 10" "11 \<le> y" by linarith
  then show ?thesis
  proof cases
    case 1
    with assms have "x \<le> 10" by simp
    with 1 assms show ?thesis
      by (simp add: channel_luminance_def threshold_int divide_right_mono)
  next
    case 2
    with assms have y: "11 \<le> y" by simp
    have "((real_of_int x / 255 + 0.055) / 1.055) powr 2.4
            \<le> ((real_of_int y / 255 + 0.055) / 1.055) powr 2.4"
      using assms by (intro powr_mono2) (simp_all add: divide_right_mono)
    with 2 y show ?thesis
      by (simp add: channel_luminance_def threshold_int)
  next
    case 3
    have "channel_luminance (real_of_int x) = real_of_int x / 255 / 12.92"
      using 3 by (simp add: channel_luminance_def threshold_int)
    also have "\<dots> \<le> 10 / 255 / 12.92"
      using 3 by (simp add: divide_right_mono)
    also have "\<dots> \<le> ((11 / 255 + 0.055) / 1.055) powr 2.4"
      by (rule branch_gap)
    also have "\<dots> \<le> ((real_of_int y / 255 + 0.055) / 1.055) powr 2.4"
      using 3 by (intro powr_mono2) (simp_all add: divide_right_mono)
    also have "\<dots> = channel_luminance (real_of_int y)"
      using 3 by (simp add: channel_luminance_def threshold_int)
    finally show ?thesis .
  qed
qed

lemma channel_luminance_range:
  assumes "0 \<le> x" "x \<le> 255"
  shows "0 \<le> channel_luminance x \<and> channel_luminance x \<le> 1"
proof (cases "x / 255 \<le> 0.03928")
  case True
  with assms show ?thesis by (simp add: channel_luminance_def)
next
  case False
  have "\<bar>(x / 255 + 0.055) / 1.055\<bar> \<le> 1" using assms by simp
  then have "((x / 255 + 0.055) / 1.055) powr 2.4 \<le> 1" by (intro powr_le1) simp_all
  with False show ?thesis by (simp add: channel_luminance_def)
qed

lemma channel_luminance_0: "channel_luminance 0 = 0"
  by (simp add: channel_luminance_def)

lemma channel_luminance_255: "channel_luminance 255 = 1"
  by (simp add: channel_luminance_def)

text \<open>
  The two branches cross below the threshold 0.03928, so the power branch just above it
  gives less than the linear branch just below it: between the channels 10 and 11 the
  function is not monotone on fractional values.
\<close>

lemma channel_luminance_dip: "channel_luminance 10.017 < channel_luminance 10.016"
proof -
  let ?b = "((10.017 / 255 + 0.055) / 1.055 :: real)"
  let ?a = "(10.016 / 255 / 12.92 :: real)"
  have "?b powr 2.4 < ?a"
  proof (rule ccontr)
    assume "\<not> ?b powr 2.4 < ?a"
    then have "?a \<le> ?b powr 2.4" by simp
    then have "?a powr 5 \<le> (?b powr 2.4) powr 5"
      by (intro powr_mono2) simp_all
    then have "?a powr 5 \<le> ?b powr 12" by (simp add: powr_powr)
    moreover have "?b powr 12 = ?b ^ 12" by (rule powr_numeral) simp
    moreover have "?a powr 5 = ?a ^ 5" by (rule powr_numeral) simp
    ultimately have "?a ^ 5 \<le> ?b ^ 12" by simp
    moreover have "?b ^ 12 < ?a ^ 5" by (simp add: power_divide divide_simps)
    ultimately show False by simp
  qed
  then show ?thesis by (simp add: channel_luminance_def)
qed

text \<open>
  Claim C5, as the code has it. For RGB triples whose channels are integers from 0 to 255
  (what \<^verbatim>\<open>getRGB\<close> produces with \<^verbatim>\<open>Math.round\<close> and \<^verbatim>\<open>parseInt\<close>), the
  luminance is monotonically non-decreasing in each channel while the other two are held
  fixed.
\<close>

theorem getLuminance_monotone:
  assumes "0 \<le> x" "x \<le> y" "y \<le> 255"
  shows "getLuminance (real_of_int x) g b \<le> getLuminance (real_of_int y) g b
       \<and> getLuminance r (real_of_int x) b \<le> getLuminance r (real_of_int y) b
       \<and> getLuminance r g (real_of_int x) \<le> getLuminance r g (real_of_int y)"
proof -
  have "channel_luminance (real_of_int x) \<le> channel_luminance (real_of_int y)"
    using assms by (rule channel_luminance_mono_int)
  then show ?thesis by (simp add: getLuminance_def)
qed

theorem getLuminance_monotone_witness:
  "getLuminance 10 0 0 \<le> getLuminance 11 0 0
   \<and> getLuminance 0 10 0 \<le> getLuminance 0 11 0
   \<and> getLuminance 0 0 10 \<le> getLuminance 0 0 11"
  using getLuminance_monotone [where x = 10 and y = 11 and r = 0 and g = 0 and b = 0] by simp

text \<open>
  The claim as the spec states it, for every channel value between 0 and 255, fails:
  \<^verbatim>\<open>calculateContrastRGBA\<close> does not round its arguments, and raising the red channel
  from 10.016 to 10.017 lowers the luminance.
\<close>

theorem getLuminance_counterexample:
  "(0::real) \<le> 10.016 \<and> (10.016::real) \<le> 10.017 \<and> (10.017::real) \<le> 255
   \<and> getLuminance 10.017 0 0 < getLuminance 10.016 0 0"
  using channel_luminance_dip by (simp add: getLuminance_def)

section \<open>Loading the icons\<close>

lemma loadIcon_result:
  "loadIcon fetch c (key, config) =
     Inr (cache_set key
       (case markup_of (fetch key Primary (path config)) of
          Some m \<Rightarrow> m
        | None \<Rightarrow> (case markup_of (fetch key Fallback (getIconPath fallbackIcon)) of
                     Some m \<Rightarrow> m | None \<Rightarrow> [])) c)"
  by (auto simp: loadIcon_def try_catch_def bind_exn_def markup_of_def Let_def split: sum.splits)

lemma loadIcon_stored: "loadIcon fetch c e = Inr (cache_set (fst e) (stored fetch e) c)"
  by (cases e) (simp add: loadIcon_result stored_def split: option.splits)

lemma settle_all_fold:
  "settle_all fetch es c = Inr (fold (\<lambda>e. cache_set (fst e) (stored fetch e)) es c)"
proof (induction es arbitrary: c)
  case Nil
  show ?case by simp
next
  case (Cons e es)
  show ?case by (simp add: loadIcon_stored Cons.IH)
qed

lemma fold_cache_set_distinct:
  "distinct (map fst c) \<Longrightarrow> distinct (map fst (fold (\<lambda>e. cache_set (fst e) (f e)) es c))"
  by (induction es arbitrary: c) (simp_all add: cache_set_def distinct_update)

lemma fold_cache_set_other:
  "k \<notin> fst ` set es \<Longrightarrow> cache_get (fold (\<lambda>e. cache_set (fst e) (f e)) es c) k = cache_get c k"
  by (induction es arbitrary: c) (auto simp: cache_set_def cache_get_def update_conv')

lemma fold_cache_set_get:
  "distinct (map fst es) \<Longrightarrow> e \<in> set es \<Longrightarrow>
     cache_get (fold (\<lambda>e. cache_set (fst e) (f e)) es c) (fst e) = Some (f e)"
proof (induction es arbitrary: c)
  case Nil
  then show ?case by simp
next
  case (Cons a es)
  show ?case
  proof (cases "e = a")
    case True
    with Cons.prems have "fst a \<notin> fst ` set es" by auto
    then show ?thesis using True
      by (simp add: fold_cache_set_other) (simp add: cache_set_def cache_get_def update_conv')
  next
    case False
    with Cons show ?thesis by simp
  qed
qed

lemma one_entry:
  "distinct (map fst c) \<Longrightarrow> map_of c k = Some v \<Longrightarrow> length (filter (\<lambda>e. fst e = k) c) = 1"
proof (induction c)
  case Nil
  then show ?case by simp
next
  case (Cons a c)
  show ?case
  proof (cases "fst a = k")
    case True
    with Cons.prems have "k \<notin> fst ` set c" by auto
    then have "filter (\<lambda>e. fst e = k) c = []" by (auto simp: filter_empty_conv)
    with True show ?thesis by simp
  next
    case False
    with Cons show ?thesis by (cases a) auto
  qed
qed

lemma distinct_iconPaths: "distinct (map fst iconPaths)"
  by (simp add: iconPaths_def)

lemma distinct_createIconMap: "distinct (map fst createIconMap)"
proof -
  have "map fst createIconMap = map fst iconPaths"
    by (simp add: createIconMap_def case_prod_beta comp_def)
  with distinct_iconPaths show ?thesis by simp
qed

text \<open>
  Claim C1. Whatever the network answers and in whatever order the callbacks finish,
  \<^verbatim>\<open>preloadAllIcons\<close> resolves, and afterwards every key of the catalog has exactly
  one cache entry: the fetched markup when the primary fetch succeeds, the fallback's
  markup when only the fallback fetch succeeds, and the empty string when both fail.
\<close>

theorem preloadAllIcons_cache:
  assumes "mset completion = mset createIconMap" and "distinct (map fst c)"
  shows "\<exists>c'. preloadAllIcons fetch completion c = Inr c'
    \<and> distinct (map fst c')
    \<and> (\<forall>(key, config) \<in> set createIconMap.
         length (filter (\<lambda>e. fst e = key) c') = 1
         \<and> (case markup_of (fetch key Primary (path config)) of
              Some m \<Rightarrow> cache_get c' key = Some m
            | None \<Rightarrow>
                (case markup_of (fetch key Fallback (getIconPath fallbackIcon)) of
                   Some m \<Rightarrow> cache_get c' key = Some m
                 | None \<Rightarrow> cache_get c' key = Some [])))"
proof -
  let ?c' = "fold (\<lambda>e. cache_set (fst e) (stored fetch e)) completion c"
  have run: "preloadAllIcons fetch completion c = Inr ?c'"
    by (simp add: preloadAllIcons_def settle_all_fold)
  have d': "distinct (map fst ?c')"
    using assms(2) by (rule fold_cache_set_distinct)
  have "mset (map fst completion) = mset (map fst createIconMap)"
    using assms(1) by (metis mset_map)
  then have dk: "distinct (map fst completion)"
    using distinct_createIconMap by (metis mset_eq_imp_distinct_iff)
  have set_eq: "set completion = set createIconMap"
    using assms(1) by (rule mset_eq_setD)
  have each: "cache_get ?c' key = Some (stored fetch (key, config))
              \<and> length (filter (\<lambda>e. fst e = key) ?c') = 1"
    if "(key, config) \<in> set createIconMap" for key config
  proof -
    from that set_eq have "(key, config) \<in> set completion" by simp
    from fold_cache_set_get [OF dk this, of "stored fetch" c]
    have g: "cache_get ?c' key = Some (stored fetch (key, config))" by simp
    then have "map_of ?c' key = Some (stored fetch (key, config))" by (simp add: cache_get_def)
    from one_entry [OF d' this] g show ?thesis by simp
  qed
  have "\<forall>(key, config) \<in> set createIconMap.
         length (filter (\<lambda>e. fst e = key) ?c') = 1
         \<and> (case markup_of (fetch key Primary (path config)) of
              Some m \<Rightarrow> cache_get ?c' key = Some m
            | None \<Rightarrow>
                (case markup_of (fetch key Fallback (getIconPath fallbackIcon)) of
                   Some m \<Rightarrow> cache_get ?c' key = Some m
                 | None \<Rightarrow> cache_get ?c' key = Some []))"
  proof (clarify)
    fix key config
    assume "(key, config) \<in> set createIconMap"
    from each [OF this] show "length (filter (\<lambda>e. fst e = key) ?c') = 1
         \<and> (case markup_of (fetch key Primary (path config)) of
              Some m \<Rightarrow> cache_get ?c' key = Some m
            | None \<Rightarrow>
                (case markup_of (fetch key Fallback (getIconPath fallbackIcon)) of
                   Some m \<Rightarrow> cache_get ?c' key = Some m
                 | None \<Rightarrow> cache_get ?c' key = Some []))"
      by (simp add: stored_def split: option.splits)
  qed
  with run d' show ?thesis by blast
qed


lemma createIconMap_entry:
  assumes "(key, filename) \<in> set iconPaths" "filename \<noteq> []" "distinct (map fst iconPaths)"
  shows "(key, \<lparr>path = ''./assets/icons/'' @ filename, selector = DataIcon key\<rparr>)
           \<in> set createIconMap"
proof -
  from assms(1,3) have "map_of iconPaths key = Some filename" by simp
  with assms(2) have "getIconPath key = ''./assets/icons/'' @ filename"
    by (simp add: getIconPath_def)
  with assms(1) show ?thesis
    by (force simp: createIconMap_def)
qed

theorem preloadAllIcons_cache_witness:
  "\<exists>c'. preloadAllIcons demo_network (rev createIconMap) [] = Inr c'
     \<and> cache_get c' ''add'' = Some (js ''<svg/>'')
     \<and> cache_get c' ''warning'' = Some (js ''<svg id=ph/>'')
     \<and> cache_get c' ''home'' = Some []"
proof -
  have p: "mset (rev createIconMap) = mset createIconMap" by simp
  have d: "distinct (map fst ([] :: cache))" by simp
  from preloadAllIcons_cache [OF p d, of demo_network]
  obtain c' where run: "preloadAllIcons demo_network (rev createIconMap) [] = Inr c'"
    and all: "\<forall>(key, config) \<in> set createIconMap.
         length (filter (\<lambda>e. fst e = key) c') = 1
         \<and> (case markup_of (demo_network key Primary (path config)) of
              Some m \<Rightarrow> cache_get c' key = Some m
            | None \<Rightarrow>
                (case markup_of (demo_network key Fallback (getIconPath fallbackIcon)) of
                   Some m \<Rightarrow> cache_get c' key = Some m
                 | None \<Rightarrow> cache_get c' key = Some []))"
    by blast
  have fb: "getIconPath fallbackIcon = ''./assets/icons/placeholder.svg''"
    by (simp add: getIconPath_def fallbackIcon_def iconPaths_def)
  have m1: "(''add'', \<lparr>path = ''./assets/icons/'' @ ''add.svg'', selector = DataIcon ''add''\<rparr>)
              \<in> set createIconMap"
    by (rule createIconMap_entry [OF _ _ distinct_iconPaths]) (simp_all add: iconPaths_def)
  have m2: "(''warning'', \<lparr>path = ''./assets/icons/'' @ ''warning.svg'', selector = DataIcon ''warning''\<rparr>)
              \<in> set createIconMap"
    by (rule createIconMap_entry [OF _ _ distinct_iconPaths]) (simp_all add: iconPaths_def)
  have m3: "(''home'', \<lparr>path = ''./assets/icons/'' @ ''home.svg'', selector = DataIcon ''home''\<rparr>)
              \<in> set createIconMap"
    by (rule createIconMap_entry [OF _ _ distinct_iconPaths]) (simp_all add: iconPaths_def)
  from bspec [OF all m1] have "cache_get c' ''add'' = Some (js ''<svg/>'')"
    by (simp add: demo_network_def markup_of_def)
  moreover from bspec [OF all m2] have "cache_get c' ''warning'' = Some (js ''<svg id=ph/>'')"
    by (simp add: demo_network_def markup_of_def fb)
  moreover from bspec [OF all m3] have "cache_get c' ''home'' = Some []"
    by (simp add: demo_network_def markup_of_def fb)
  ultimately show ?thesis using run by blast
qed

section \<open>Contrast ratio\<close>

lemma getLuminance_range:
  assumes "0 \<le> r" "r \<le> 255" "0 \<le> g" "g \<le> 255" "0 \<le> b" "b \<le> 255"
  shows "0 \<le> getLuminance r g b \<and> getLuminance r g b \<le> 1"
proof -
  from assms channel_luminance_range [of r] channel_luminance_range [of g]
    channel_luminance_range [of b]
  have "0 \<le> channel_luminance r" "channel_luminance r \<le> 1"
       "0 \<le> channel_luminance g" "channel_luminance g \<le> 1"
       "0 \<le> channel_luminance b" "channel_luminance b \<le> 1" by simp_all
  then show ?thesis by (simp add: getLuminance_def Let_def)
qed

lemma contrast_bounds:
  assumes "0 \<le> l1" "l1 \<le> 1" "0 \<le> l2" "l2 \<le> (1::real)"
  shows "1 \<le> (max l1 l2 + 0.05) / (min l1 l2 + 0.05)"
    and "(max l1 l2 + 0.05) / (min l1 l2 + 0.05) \<le> 21"
proof -
  have pos: "0 < min l1 l2 + 0.05" using assms by simp
  have "min l1 l2 + 0.05 \<le> max l1 l2 + 0.05" by simp
  with pos show "1 \<le> (max l1 l2 + 0.05) / (min l1 l2 + 0.05)"
    by (simp add: le_divide_eq)
  have "max l1 l2 + 0.05 \<le> 21 * (min l1 l2 + 0.05)" using assms by simp
  with pos show "(max l1 l2 + 0.05) / (min l1 l2 + 0.05) \<le> 21"
    by (simp add: divide_le_eq)
qed

lemma calculateContrastRGBA_sym:
  "calculateContrastRGBA r1 g1 b1 r2 g2 b2 = calculateContrastRGBA r2 g2 b2 r1 g1 b1"
  by (simp add: calculateContrastRGBA_def Let_def max.commute min.commute)

lemma calculateContrastRGBA_range:
  assumes "0 \<le> r1" "r1 \<le> 255" "0 \<le> g1" "g1 \<le> 255" "0 \<le> b1" "b1 \<le> 255"
      and "0 \<le> r2" "r2 \<le> 255" "0 \<le> g2" "g2 \<le> 255" "0 \<le> b2" "b2 \<le> 255"
  shows "1 \<le> calculateContrastRGBA r1 g1 b1 r2 g2 b2
       \<and> calculateContrastRGBA r1 g1 b1 r2 g2 b2 \<le> 21"
proof -
  from assms getLuminance_range [of r1 g1 b1] getLuminance_range [of r2 g2 b2]
  have "0 \<le> getLuminance r1 g1 b1" "getLuminance r1 g1 b1 \<le> 1"
       "0 \<le> getLuminance r2 g2 b2" "getLuminance r2 g2 b2 \<le> 1" by simp_all
  from contrast_bounds [OF this] show ?thesis
    by (simp add: calculateContrastRGBA_def Let_def)
qed

lemma calculateContrastRGBA_same:
  assumes "0 \<le> r" "r \<le> 255" "0 \<le> g" "g \<le> 255" "0 \<le> b" "b \<le> 255"
  shows "calculateContrastRGBA r g b r g b = 1"
proof -
  from assms getLuminance_range [of r g b] have "0 \<le> getLuminance r g b" by simp
  then have "getLuminance r g b + 0.05 \<noteq> 0" by simp
  then show ?thesis by (simp add: calculateContrastRGBA_def Let_def)
qed

lemma valid_channelD: "valid_channel v \<Longrightarrow> \<exists>x. v = Num x \<and> 0 \<le> x \<and> x \<le> 255"
  by (cases v) simp_all

lemma valid_colorD:
  assumes "valid_color c"
  shows "\<exists>r g b. getRGB c = Inr (Num r, Num g, Num b)
           \<and> 0 \<le> r \<and> r \<le> 255 \<and> 0 \<le> g \<and> g \<le> 255 \<and> 0 \<le> b \<and> b \<le> 255"
proof -
  from assms obtain vr vg vb where g: "getRGB c = Inr (vr, vg, vb)"
    and v: "valid_channel vr" "valid_channel vg" "valid_channel vb"
    by (auto simp: valid_color_def split: sum.splits)
  from v valid_channelD [of vr] valid_channelD [of vg] valid_channelD [of vb] g
  show ?thesis by auto
qed

text \<open>
  Claim C2. For two colours whose channels parse to values in the range 0 to 255, the
  contrast ratio does not depend on the order of the colours, lies between 1 and 21, and
  is 1 for a colour against itself.
\<close>

theorem calculateContrast_symmetric_bounded:
  assumes "valid_color A" "valid_color B"
  shows "\<exists>x. calculateContrast A B = Inr (Num x) \<and> calculateContrast B A = Inr (Num x)
           \<and> 1 \<le> x \<and> x \<le> 21 \<and> calculateContrast A A = Inr (Num 1)"
proof -
  from valid_colorD [OF assms(1)]
  obtain r1 g1 b1 where A: "getRGB A = Inr (Num r1, Num g1, Num b1)"
    and a: "0 \<le> r1" "r1 \<le> 255" "0 \<le> g1" "g1 \<le> 255" "0 \<le> b1" "b1 \<le> 255"
    by blast
  from valid_colorD [OF assms(2)]
  obtain r2 g2 b2 where B: "getRGB B = Inr (Num r2, Num g2, Num b2)"
    and b: "0 \<le> r2" "r2 \<le> 255" "0 \<le> g2" "g2 \<le> 255" "0 \<le> b2" "b2 \<le> 255"
    by blast
  let ?x = "calculateContrastRGBA r1 g1 b1 r2 g2 b2"
  have "calculateContrast A B = Inr (Num ?x)"
    by (simp add: calculateContrast_def A B calculateContrastRGBA_number_def)
  moreover have "calculateContrast B A = Inr (Num ?x)"
    by (simp add: calculateContrast_def A B calculateContrastRGBA_number_def
        calculateContrastRGBA_sym [of r2 g2 b2])
  moreover have "1 \<le> ?x \<and> ?x \<le> 21"
    using a b by (intro calculateContrastRGBA_range)
  moreover have "calculateContrast A A = Inr (Num 1)"
    using a by (simp add: calculateContrast_def A calculateContrastRGBA_number_def
        calculateContrastRGBA_same)
  ultimately show ?thesis by blast
qed

lemmas getRGB_eval = getRGB_def js_def match_rgba_def match_number_def
  skip_spaces_def expect_def is_digit_def is_space_def parseFloat_def Math_round_def
  digits_value_def parseInt16_def substr_def hex_value_def hex_digit_def

lemma getRGB_black: "getRGB (js ''rgb(0, 0, 0)'') = Inr (Num 0, Num 0, Num 0)"
  by (simp add: getRGB_eval)

lemma getRGB_white: "getRGB (js ''#ffffff'') = Inr (Num 255, Num 255, Num 255)"
  by (simp add: getRGB_eval)

lemma getLuminance_black: "getLuminance 0 0 0 = 0"
  by (simp add: getLuminance_def channel_luminance_0)

lemma getLuminance_white: "getLuminance 255 255 255 = 1"
  by (simp add: getLuminance_def channel_luminance_255)

lemma contrast_black_white: "calculateContrastRGBA 0 0 0 255 255 255 = 21"
  by (simp add: calculateContrastRGBA_def getLuminance_black getLuminance_white)

theorem calculateContrast_symmetric_bounded_witness:
  "calculateContrast (js ''rgb(0, 0, 0)'') (js ''#ffffff'') = Inr (Num 21)
   \<and> calculateContrast (js ''#ffffff'') (js ''rgb(0, 0, 0)'') = Inr (Num 21)
   \<and> calculateContrast (js ''rgb(0, 0, 0)'') (js ''rgb(0, 0, 0)'') = Inr (Num 1)"
proof -
  have vA: "valid_color (js ''rgb(0, 0, 0)'')"
    by (simp add: valid_color_def getRGB_black)
  have vB: "valid_color (js ''#ffffff'')"
    by (simp add: valid_color_def getRGB_white)
  from calculateContrast_symmetric_bounded [OF vA vB]
  obtain x where x: "calculateContrast (js ''rgb(0, 0, 0)'') (js ''#ffffff'') = Inr (Num x)"
      "calculateContrast (js ''#ffffff'') (js ''rgb(0, 0, 0)'') = Inr (Num x)"
      "calculateContrast (js ''rgb(0, 0, 0)'') (js ''rgb(0, 0, 0)'') = Inr (Num 1)"
    by blast
  have "calculateContrast (js ''rgb(0, 0, 0)'') (js ''#ffffff'') = Inr (Num 21)"
    by (simp add: calculateContrast_def getRGB_black getRGB_white
        calculateContrastRGBA_number_def contrast_black_white)
  with x show ?thesis by simp
qed

section \<open>The label pass\<close>

lemma update_label_ok:
  "\<not> contrast_fails b \<Longrightarrow> \<exists>b'. update_label b = Inr b' \<and> relabelled b b'"
  by (auto simp: contrast_fails_def update_label_def relabelled_def Let_def
      split: option.splits sum.splits)

lemma update_label_fails:
  "contrast_fails b \<Longrightarrow>
     \<exists>e. calculateContrast (color b) (backgroundColor b) = Inl e \<and> update_label b = Inl e"
  by (auto simp: contrast_fails_def update_label_def split: option.splits sum.splits)

lemma updateButtonLabels_all:
  assumes "\<forall>b \<in> set bs. \<not> contrast_fails b"
  shows "\<exists>bs'. updateButtonLabels bs = (bs', None) \<and> list_all2 relabelled bs bs'"
  using assms
proof (induction bs)
  case Nil
  then show ?case by simp
next
  case (Cons b bs)
  from Cons.prems update_label_ok [of b]
  obtain b' where b': "update_label b = Inr b'" "relabelled b b'" by auto
  from Cons obtain bs' where bs': "updateButtonLabels bs = (bs', None)" "list_all2 relabelled bs bs'"
    by auto
  from b' bs' show ?case by simp
qed

text \<open>
  Claim C3, as the code has it. The error of one button's contrast computation is not
  caught: it leaves \<^verbatim>\<open>updateButtonLabels\<close>. The buttons before the failing one have
  been relabelled; the failing button and every button after it keep their labels.
\<close>

theorem updateButtonLabels_stops_at_failure:
  assumes "\<forall>a \<in> set pre. \<not> contrast_fails a" and "contrast_fails b"
  shows "\<exists>e pre'. calculateContrast (color b) (backgroundColor b) = Inl e
           \<and> updateButtonLabels (pre @ b # post) = (pre' @ b # post, Some e)
           \<and> list_all2 relabelled pre pre'"
  using assms(1)
proof (induction pre)
  case Nil
  from update_label_fails [OF assms(2)] show ?case by auto
next
  case (Cons a pre)
  from Cons.prems update_label_ok [of a]
  obtain a' where a': "update_label a = Inr a'" "relabelled a a'" by auto
  from Cons obtain e pre' where
    "calculateContrast (color b) (backgroundColor b) = Inl e"
    "updateButtonLabels (pre @ b # post) = (pre' @ b # post, Some e)"
    "list_all2 relabelled pre pre'" by auto
  with a' have "calculateContrast (color b) (backgroundColor b) = Inl e
      \<and> updateButtonLabels ((a # pre) @ b # post) = ((a' # pre') @ b # post, Some e)
      \<and> list_all2 relabelled (a # pre) (a' # pre')" by simp
  then show ?case by blast
qed

lemma getRGB_transparent: "getRGB (js ''transparent'') = Inl InvalidColor"
  by (simp add: getRGB_def)

lemma getRGB_white_rgb: "getRGB (js ''rgb(255, 255, 255)'') = Inr (Num 255, Num 255, Num 255)"
  by (simp add: getRGB_eval)

lemma toFixed2_21: "toFixed2 (Num 21) = js ''21.00''"
  by (simp add: toFixed2_def fixed2_def decimal.simps js_def)

lemma toFixed2_1: "toFixed2 (Num 1) = js ''1.00''"
  by (simp add: toFixed2_def fixed2_def decimal.simps js_def)

lemma contrast_white_white: "calculateContrastRGBA 255 255 255 255 255 255 = 1"
  by (simp add: calculateContrastRGBA_def getLuminance_white)

lemma update_label_button_on:
  "update_label button_on = Inr (button_on\<lparr>label := Some (js ''On<br>21.00'')\<rparr>)"
proof -
  have "calculateContrast (js ''rgb(0, 0, 0)'') (js ''#ffffff'') = Inr (Num 21)"
    by (simp add: calculateContrast_def getRGB_black getRGB_white
        calculateContrastRGBA_number_def contrast_black_white)
  moreover have "before_br (js ''On<br>1.00'') = js ''On''"
    by (simp add: js_def)
  ultimately show ?thesis
    by (simp add: update_label_def button_on_def toFixed2_21) (simp add: js_def)
qed

lemma update_label_button_off: "update_label button_off = Inl InvalidColor"
  by (simp add: update_label_def button_off_def calculateContrast_def getRGB_transparent)

text \<open>
  The claim as the spec states it fails: the first button's colour is transparent, and the
  second button, whose colours parse, keeps its old label.
\<close>

theorem updateButtonLabels_counterexample:
  "updateButtonLabels [button_off, button_on] = ([button_off, button_on], Some InvalidColor)
   \<and> update_label button_on = Inr (button_on\<lparr>label := Some (js ''On<br>21.00'')\<rparr>)
   \<and> label button_on = Some (js ''On<br>1.00'')"
  by (simp add: update_label_button_off update_label_button_on) (simp add: button_on_def)

theorem updateButtonLabels_stops_at_failure_witness:
  "updateButtonLabels [button_on, button_off, button_on]
     = ([button_on\<lparr>label := Some (js ''On<br>21.00'')\<rparr>, button_off, button_on],
        Some InvalidColor)"
proof -
  have ok: "\<forall>a \<in> set [button_on]. \<not> contrast_fails a"
    using update_label_button_on
    by (auto simp: contrast_fails_def update_label_def button_on_def split: sum.splits)
  have bad: "contrast_fails button_off"
    using update_label_button_off
    by (auto simp: contrast_fails_def update_label_def button_off_def split: sum.splits)
  from updateButtonLabels_stops_at_failure [OF ok bad, of "[button_on]"]
  obtain e pre' where e: "calculateContrast (color button_off) (backgroundColor button_off) = Inl e"
    and run: "updateButtonLabels ([button_on] @ button_off # [button_on])
                = (pre' @ button_off # [button_on], Some e)"
    and rel: "list_all2 relabelled [button_on] pre'" by blast
  from e have "e = InvalidColor"
    by (simp add: button_off_def calculateContrast_def getRGB_transparent)
  moreover from rel obtain b' where pre': "pre' = [b']" and r: "relabelled button_on b'"
    by (auto simp: list_all2_Cons1)
  from r update_label_button_on have "b' = button_on\<lparr>label := Some (js ''On<br>21.00'')\<rparr>"
    by (auto simp: relabelled_def update_label_def button_on_def Let_def split: sum.splits)
  ultimately show ?thesis using run pre' by simp
qed

section \<open>Clicks on disabled buttons\<close>

lemma closest_Some_iff: "(\<exists>i. closest sel xs = Some i) \<longleftrightarrow> (\<exists>x \<in> set xs. sel x)"
  by (induction xs) auto

text \<open>
  Claim C7. A click whose target lies inside a button with \<^verbatim>\<open>aria-disabled="true"\<close>
  is stopped by the capturing listener of the document: the default action is prevented,
  propagation and immediate propagation are stopped, no other listener runs (neither the
  toggle listener nor any listener below the document), and the page is unchanged.
\<close>

theorem disabled_click_suppressed:
  assumes "\<exists>x \<in> set (target_path pg). is_disabled_button x"
  shows "dispatch_click below pg =
           ((\<lparr>defaultPrevented = True, propagationStopped = True, immediateStopped = True\<rparr>, pg),
            [''blockDisabledButtonEvents''])"
proof -
  from assms obtain i where "closest is_disabled_button (target_path pg) = Some i"
    using closest_Some_iff [of is_disabled_button "target_path pg"] by blast
  then show ?thesis
    by (simp add: dispatch_click_def document_click_listeners_def blockDisabledButtonEvents_def)
qed

theorem disabled_click_suppressed_witness:
  "dispatch_click [] disabled_toggle_page =
     ((\<lparr>defaultPrevented = True, propagationStopped = True, immediateStopped = True\<rparr>,
       disabled_toggle_page), [''blockDisabledButtonEvents''])"
proof -
  have "\<exists>x \<in> set (target_path disabled_toggle_page). is_disabled_button x"
    by (simp add: disabled_toggle_page_def is_disabled_button_def)
  from disabled_click_suppressed [OF this] show ?thesis .
qed

lemma enabled_click_toggles:
  "dispatch_click [] enabled_toggle_page =
     ((\<lparr>defaultPrevented = False, propagationStopped = False, immediateStopped = False\<rparr>,
       \<lparr>target_path =
          [\<lparr>classes = [''button'', ''toggle'', ''pressed''], aria_disabled = None,
             aria_pressed = Some ''true'', data_isToggleButton = Some ''true''\<rparr>],
        scheduled_updates = 1\<rparr>),
      [''blockDisabledButtonEvents'', ''toggle''])"
  by (simp add: dispatch_click_def document_click_listeners_def blockDisabledButtonEvents_def
      toggle_click_def enabled_toggle_page_def is_disabled_button_def is_button_def)

section \<open>Arrow-key navigation\<close>

lemma indexOf_Some:
  "indexOf xs b = Some i \<Longrightarrow> i < length xs \<and> ident (xs ! i) = ident b"
proof (induction xs arbitrary: i)
  case Nil
  then show ?case by simp
next
  case (Cons x xs)
  then show ?case by (auto split: if_splits)
qed

lemma indexOf_member:
  "distinct (map ident xs) \<Longrightarrow> b \<in> set xs \<Longrightarrow> \<exists>i. indexOf xs b = Some i \<and> i < length xs \<and> xs ! i = b"
proof (induction xs)
  case Nil
  then show ?case by simp
next
  case (Cons x xs)
  show ?case
  proof (cases "ident x = ident b")
    case True
    with Cons.prems have "x = b" by (auto simp: image_iff)
    with True show ?thesis by simp
  next
    case False
    with Cons obtain i where "indexOf xs b = Some i" "i < length xs" "xs ! i = b" by auto
    with False show ?thesis by simp
  qed
qed

lemma find_upt_Some:
  assumes "find P [1..<n] = Some i"
  shows "1 \<le> i \<and> i < n \<and> P i \<and> (\<forall>j. 1 \<le> j \<and> j < i \<longrightarrow> \<not> P j)"
proof -
  from assms obtain k where k: "k < length [1..<n]" "P ([1..<n] ! k)" "i = [1..<n] ! k"
    "\<forall>j<k. \<not> P ([1..<n] ! j)" by (auto simp: find_Some_iff)
  then have i: "i = 1 + k" "k < n - 1" by simp_all
  have "\<not> P j" if "1 \<le> j" "j < i" for j
  proof -
    from that i have "j - 1 < k" by simp
    with k(4) have "\<not> P ([1..<n] ! (j - 1))" by blast
    moreover from that i have "[1..<n] ! (j - 1) = j" by simp
    ultimately show ?thesis by simp
  qed
  with k i show ?thesis by auto
qed

lemma find_upt_None: "find P [1..<n] = None \<Longrightarrow> 1 \<le> j \<Longrightarrow> j < n \<Longrightarrow> \<not> P j"
  by (auto simp: find_None_iff)

lemma reach_down:
  assumes "m < n" "cur < n" "m \<noteq> cur"
  shows "\<exists>i. 1 \<le> i \<and> i < n \<and> (cur + i) mod n = (m::nat)"
proof (cases "cur < m")
  case True
  then have "1 \<le> m - cur \<and> m - cur < n" using assms by arith
  moreover have "(cur + (m - cur)) mod n = m" using True assms by simp
  ultimately show ?thesis by blast
next
  case False
  with assms have lt: "m < cur" by simp
  have "cur + (n + m - cur) = m + n" using lt assms by arith
  then have "(cur + (n + m - cur)) mod n = m" using assms by simp
  moreover have "1 \<le> n + m - cur \<and> n + m - cur < n" using lt assms by arith
  ultimately show ?thesis by blast
qed

lemma reach_up:
  assumes "m < n" "cur < n" "m \<noteq> cur"
  shows "\<exists>i. 1 \<le> i \<and> i < n \<and> (cur + n - i) mod n = (m::nat)"
proof (cases "m < cur")
  case True
  have "cur + n - (cur - m) = m + n" using True by arith
  then have "(cur + n - (cur - m)) mod n = m" using assms by simp
  moreover have "1 \<le> cur - m \<and> cur - m < n" using True assms by arith
  ultimately show ?thesis by blast
next
  case False
  with assms have lt: "cur < m" by simp
  have "cur + n - (cur + n - m) = m" using lt assms by arith
  then have "(cur + n - (cur + n - m)) mod n = m" using assms by simp
  moreover have "1 \<le> cur + n - m \<and> cur + n - m < n" using lt assms by arith
  ultimately show ?thesis by blast
qed

text \<open>The visible buttons, the focused one among them, and its index.\<close>

lemma focused_index:
  assumes "distinct (map ident doc)" "fb \<in> set doc" "visible fb"
  shows "\<exists>cur. indexOf (filter visible doc) fb = Some cur \<and> cur < length (filter visible doc)
           \<and> filter visible doc ! cur = fb"
proof -
  have "distinct (map ident (filter visible doc))"
    using assms(1) by (simp add: distinct_map_filter)
  moreover have "fb \<in> set (filter visible doc)" using assms by simp
  ultimately show ?thesis by (rule indexOf_member)
qed

lemma arrowDown_target_found:
  assumes cur: "cur < length bs" "bs ! cur = fb"
      and other: "\<exists>b \<in> set bs. showcase b \<noteq> showcase fb"
  shows "\<exists>i. 1 \<le> i \<and> i < length bs
           \<and> arrowDown_target bs cur fb = Some (bs ! ((cur + i) mod length bs))
           \<and> showcase (bs ! ((cur + i) mod length bs)) \<noteq> showcase fb
           \<and> (\<forall>j. 1 \<le> j \<and> j < i \<longrightarrow> showcase (bs ! ((cur + j) mod length bs)) = showcase fb)"
proof -
  let ?n = "length bs"
  let ?P = "\<lambda>i. showcase (bs ! ((cur + i) mod ?n)) \<noteq> showcase fb"
  from other obtain m where m: "m < ?n" "showcase (bs ! m) \<noteq> showcase fb"
    by (auto simp: in_set_conv_nth)
  with cur have "m \<noteq> cur" by auto
  from reach_down [OF m(1) cur(1) this] obtain i0 where
    i0: "1 \<le> i0" "i0 < ?n" "(cur + i0) mod ?n = m" by blast
  with m have P0: "?P i0" by simp
  have "find ?P [1..<?n] \<noteq> None"
  proof
    assume "find ?P [1..<?n] = None"
    from find_upt_None [OF this i0(1,2)] P0 show False by simp
  qed
  then obtain i where f: "find ?P [1..<?n] = Some i" by auto
  from find_upt_Some [OF f] have "1 \<le> i" "i < ?n" "?P i" "\<forall>j. 1 \<le> j \<and> j < i \<longrightarrow> \<not> ?P j"
    by simp_all
  moreover from f have "arrowDown_target bs cur fb = Some (bs ! ((cur + i) mod ?n))"
    by (simp add: arrowDown_target_def)
  ultimately show ?thesis by auto
qed

lemma arrowDown_target_none:
  assumes "\<forall>b \<in> set bs. showcase b = showcase fb" "cur < length bs"
  shows "arrowDown_target bs cur fb = None"
proof -
  have "showcase (bs ! ((cur + i) mod length bs)) = showcase fb" for i
  proof -
    from assms(2) have "0 < length bs" by arith
    then have "(cur + i) mod length bs < length bs" by (rule mod_less_divisor)
    then have "bs ! ((cur + i) mod length bs) \<in> set bs" by (rule nth_mem)
    with assms(1) show ?thesis by blast
  qed
  then have "find (\<lambda>i. showcase (bs ! ((cur + i) mod length bs)) \<noteq> showcase fb) [1..<length bs] = None"
    by (simp add: find_None_iff)
  then show ?thesis by (simp add: arrowDown_target_def)
qed

lemma filter_first:
  assumes "filter P xs = t # ts"
  shows "\<exists>k. k < length xs \<and> xs ! k = t \<and> P t \<and> (\<forall>k' < k. \<not> P (xs ! k'))"
  using assms
proof (induction xs)
  case Nil
  then show ?case by simp
next
  case (Cons x xs)
  show ?case
  proof (cases "P x")
    case True
    with Cons.prems have "x = t" by simp
    with True show ?thesis by (intro exI [of _ 0]) simp
  next
    case False
    with Cons obtain k where k: "k < length xs" "xs ! k = t" "P t" "\<forall>k' < k. \<not> P (xs ! k')"
      by auto
    have "\<forall>k' < Suc k. \<not> P ((x # xs) ! k')"
    proof (intro allI impI)
      fix k' assume "k' < Suc k"
      with k(4) False show "\<not> P ((x # xs) ! k')" by (cases k') simp_all
    qed
    with k show ?thesis by (intro exI [of _ "Suc k"]) simp
  qed
qed

lemma arrowUp_target_found:
  assumes cur: "cur < length bs" "bs ! cur = fb"
      and other: "\<exists>b \<in> set bs. showcase b \<noteq> showcase fb"
  shows "\<exists>i k. 1 \<le> i \<and> i < length bs \<and> k < length bs
           \<and> showcase (bs ! ((cur + length bs - i) mod length bs)) \<noteq> showcase fb
           \<and> (\<forall>j. 1 \<le> j \<and> j < i \<longrightarrow>
                 showcase (bs ! ((cur + length bs - j) mod length bs)) = showcase fb)
           \<and> arrowUp_target bs cur fb = Some (bs ! k)
           \<and> showcase (bs ! k) = showcase (bs ! ((cur + length bs - i) mod length bs))
           \<and> (\<forall>k' < k. showcase (bs ! k') \<noteq> showcase (bs ! k))"
proof -
  let ?n = "length bs"
  let ?P = "\<lambda>i. showcase (bs ! ((cur + ?n - i) mod ?n)) \<noteq> showcase fb"
  from other obtain m where m: "m < ?n" "showcase (bs ! m) \<noteq> showcase fb"
    by (auto simp: in_set_conv_nth)
  with cur have "m \<noteq> cur" by auto
  from reach_up [OF m(1) cur(1) this] obtain i0 where
    i0: "1 \<le> i0" "i0 < ?n" "(cur + ?n - i0) mod ?n = m" by blast
  with m have P0: "?P i0" by simp
  have "find ?P [1..<?n] \<noteq> None"
  proof
    assume "find ?P [1..<?n] = None"
    from find_upt_None [OF this i0(1,2)] P0 show False by simp
  qed
  then obtain i where f: "find ?P [1..<?n] = Some i" by auto
  from find_upt_Some [OF f] have i: "1 \<le> i" "i < ?n" "?P i"
    "\<forall>j. 1 \<le> j \<and> j < i \<longrightarrow> \<not> ?P j" by simp_all
  let ?p = "bs ! ((cur + ?n - i) mod ?n)"
  from cur(1) have "0 < ?n" by arith
  then have "(cur + ?n - i) mod ?n < ?n" by (rule mod_less_divisor)
  then have "?p \<in> set bs" by (rule nth_mem)
  then have "filter (\<lambda>btn. showcase btn = showcase ?p) bs \<noteq> []"
    by (auto simp: filter_empty_conv)
  then obtain t ts where ft: "filter (\<lambda>btn. showcase btn = showcase ?p) bs = t # ts"
    by (cases "filter (\<lambda>btn. showcase btn = showcase ?p) bs") auto
  from filter_first [OF ft] obtain k where
    k: "k < ?n" "bs ! k = t" "showcase t = showcase ?p"
       "\<forall>k' < k. showcase (bs ! k') \<noteq> showcase ?p" by blast
  from f ft have "arrowUp_target bs cur fb = Some t"
    by (simp add: arrowUp_target_def Let_def)
  with i k show ?thesis by (intro exI [of _ i] exI [of _ k]) auto
qed

lemma arrowNavigation_focused:
  assumes "indexOf (filter visible doc) fb = Some cur" "cur < length (filter visible doc)"
  shows "focus_call (arrowNavigation doc (Some fb) ArrowDown)
           = arrowDown_target (filter visible doc) cur fb"
    and "focus_call (arrowNavigation doc (Some fb) ArrowUp)
           = arrowUp_target (filter visible doc) cur fb"
  using assms by (auto simp: arrowNavigation_def Let_def)

text \<open>
  Claim C6. With the focus on a visible button and a visible button of another showcase
  present, \<^verbatim>\<open>ArrowDown\<close> focuses the nearest following button (circularly) of another
  showcase, and \<^verbatim>\<open>ArrowUp\<close> finds the nearest preceding button of another showcase and
  focuses the first button of that showcase in list order.
\<close>

theorem arrow_vertical_navigation:
  assumes "distinct (map ident doc)" "fb \<in> set doc" "visible fb"
      and "\<exists>b \<in> set doc. visible b \<and> showcase b \<noteq> showcase fb"
      and "bs = filter visible doc" "n = length bs"
  shows "\<exists>cur < n. bs ! cur = fb
    \<and> (\<exists>i. 1 \<le> i \<and> i < n
          \<and> focus_call (arrowNavigation doc (Some fb) ArrowDown) = Some (bs ! ((cur + i) mod n))
          \<and> showcase (bs ! ((cur + i) mod n)) \<noteq> showcase fb
          \<and> (\<forall>j. 1 \<le> j \<and> j < i \<longrightarrow> showcase (bs ! ((cur + j) mod n)) = showcase fb))
    \<and> (\<exists>i k. 1 \<le> i \<and> i < n \<and> k < n
          \<and> showcase (bs ! ((cur + n - i) mod n)) \<noteq> showcase fb
          \<and> (\<forall>j. 1 \<le> j \<and> j < i \<longrightarrow> showcase (bs ! ((cur + n - j) mod n)) = showcase fb)
          \<and> focus_call (arrowNavigation doc (Some fb) ArrowUp) = Some (bs ! k)
          \<and> showcase (bs ! k) = showcase (bs ! ((cur + n - i) mod n))
          \<and> (\<forall>k' < k. showcase (bs ! k') \<noteq> showcase (bs ! k)))"
proof -
  from focused_index [OF assms(1-3)] assms(5,6)
  obtain cur where cur: "indexOf bs fb = Some cur" "cur < n" "bs ! cur = fb" by auto
  from assms(4,5) have other: "\<exists>b \<in> set bs. showcase b \<noteq> showcase fb" by auto
  from cur have c': "cur < length bs" "bs ! cur = fb" using assms(6) by simp_all
  note nav = arrowNavigation_focused [of doc fb cur, folded assms(5), OF cur(1) c'(1)]
  from arrowDown_target_found [OF c' other] arrowUp_target_found [OF c' other] cur(2,3)
  show ?thesis unfolding nav assms(6) by blast
qed

lemma arrowNavigation_same_showcase:
  assumes "distinct (map ident doc)" "fb \<in> set doc" "visible fb"
      and "\<forall>b \<in> set doc. visible b \<longrightarrow> showcase b = showcase fb"
  shows "focus_call (arrowNavigation doc (Some fb) ArrowDown) = None"
proof -
  from focused_index [OF assms(1-3)]
  obtain cur where cur: "indexOf (filter visible doc) fb = Some cur"
    "cur < length (filter visible doc)" by auto
  from assms(4) have "\<forall>b \<in> set (filter visible doc). showcase b = showcase fb" by simp
  from arrowDown_target_none [OF this cur(2)] arrowNavigation_focused(1) [OF cur]
  show ?thesis by simp
qed

lemma grid_nth: "i < 10 \<Longrightarrow> grid ! i = \<lparr>ident = i, visible = True, showcase = Some (i div 5)\<rparr>"
  by (simp add: grid_def)

theorem arrow_vertical_navigation_witness:
  "focus_call (arrowNavigation grid (Some (grid ! 2)) ArrowDown) = Some (grid ! 5)
   \<and> focus_call (arrowNavigation grid (Some (grid ! 7)) ArrowUp) = Some (grid ! 0)
   \<and> (\<exists>cur < 10. grid ! cur = grid ! 2
        \<and> (\<exists>i. 1 \<le> i \<and> i < 10
             \<and> focus_call (arrowNavigation grid (Some (grid ! 2)) ArrowDown)
                 = Some (grid ! ((cur + i) mod 10))
             \<and> showcase (grid ! ((cur + i) mod 10)) \<noteq> showcase (grid ! 2)))"
proof -
  have g: "filter visible grid = grid" by (simp add: grid_def)
  have d: "distinct (map ident grid)" by (simp add: grid_def comp_def)
  have len: "length grid = 10" by (simp add: grid_def)
  have m: "grid ! 2 \<in> set grid" by (rule nth_mem) (simp add: len)
  have v: "visible (grid ! 2)" by (simp add: grid_nth)
  have "grid ! 5 \<in> set grid" by (rule nth_mem) (simp add: len)
  moreover have "visible (grid ! 5) \<and> showcase (grid ! 5) \<noteq> showcase (grid ! 2)"
    by (simp add: grid_nth)
  ultimately have o: "\<exists>b \<in> set grid. visible b \<and> showcase b \<noteq> showcase (grid ! 2)"
    by blast
  have l: "10 = length grid" by (simp add: len)
  from arrow_vertical_navigation [OF d m v o g [symmetric] l]
  have "\<exists>cur < 10. grid ! cur = grid ! 2
        \<and> (\<exists>i. 1 \<le> i \<and> i < 10
             \<and> focus_call (arrowNavigation grid (Some (grid ! 2)) ArrowDown)
                 = Some (grid ! ((cur + i) mod 10))
             \<and> showcase (grid ! ((cur + i) mod 10)) \<noteq> showcase (grid ! 2))"
    by blast
  moreover have "focus_call (arrowNavigation grid (Some (grid ! 2)) ArrowDown) = Some (grid ! 5)"
    by (simp add: arrowNavigation_def arrowDown_target_def grid_def upt_rec)
  moreover have "focus_call (arrowNavigation grid (Some (grid ! 7)) ArrowUp) = Some (grid ! 0)"
    by (simp add: arrowNavigation_def arrowUp_target_def grid_def upt_rec)
  ultimately show ?thesis by blast
qed

lemma arrowNavigation_no_focus:
  "isArrowKey k \<Longrightarrow>
     arrowNavigation doc None k =
       \<lparr>prevented = True, focus_call = (case doc of [] \<Rightarrow> None | b # rest \<Rightarrow> Some b)\<rparr>"
  by (simp add: arrowNavigation_def)

text \<open>
  Claim C8 fails on the code: with no button focused, the listener focuses the first
  element of class \<^verbatim>\<open>button\<close> of the document, hidden or not. Here that element is
  hidden and the first visible button is the second one.
\<close>

theorem arrow_no_focus_hidden_first:
  "arrowNavigation hidden_first None ArrowDown
     = \<lparr>prevented = True, focus_call = Some \<lparr>ident = 0, visible = False, showcase = Some 0\<rparr>\<rparr>
   \<and> filter visible hidden_first = [\<lparr>ident = 1, visible = True, showcase = Some 0\<rparr>]"
  by (simp add: arrowNavigation_def isArrowKey_def hidden_first_def)

section \<open>Injecting the icons\<close>

lemma length_states: "length (states f xs s) = Suc (length xs)"
  by (induction xs arbitrary: s) simp_all




lemma matches_selector_Text [simp]: "\<not> matches_selector sel (Text s)"
  by (cases sel) simp

lemma forEach_target_attrs:
  "data_icon (forEach_target parse svg sel inside n) = data_icon n
   \<and> classList (forEach_target parse svg sel inside n) = classList n"
  by (cases n) (simp_all add: Let_def)


lemma querySelectorAll_found:
  "node_at d p = Some el \<Longrightarrow> matches_selector sel el \<Longrightarrow> querySelectorAll sel d \<noteq> []"
proof (induction p arbitrary: d)
  case Nil
  then show ?case by (cases d) auto
next
  case (Cons i p)
  from Cons.prems(1) have i: "i < length (childNodes d)"
    and sub: "node_at (childNodes d ! i) p = Some el"
    by (auto split: if_splits)
  from i obtain di cl ch where d: "d = Element di cl ch" by (cases d) auto
  from Cons.IH [OF sub Cons.prems(2)] have "querySelectorAll sel (ch ! i) \<noteq> []"
    using d by simp
  moreover from i d have "ch ! i \<in> set ch" by simp
  ultimately show ?case using d by auto
qed

lemma querySelectorAll_path:
  "querySelectorAll sel d \<noteq> [] \<Longrightarrow> \<exists>p el. node_at d p = Some el \<and> matches_selector sel el"
proof (induction d)
  case (Text s)
  then show ?case by simp
next
  case (Element di cl ch)
  show ?case
  proof (cases "matches_selector sel (Element di cl ch)")
    case True
    then have "node_at (Element di cl ch) [] = Some (Element di cl ch)
                 \<and> matches_selector sel (Element di cl ch)" by simp
    then show ?thesis by blast
  next
    case False
    with Element.prems obtain c where c: "c \<in> set ch" "querySelectorAll sel c \<noteq> []"
      by auto
    from Element.IH [OF c] obtain p el where p: "node_at c p = Some el" "matches_selector sel el"
      by blast
    from c(1) obtain i where i: "i < length ch" "ch ! i = c" by (auto simp: in_set_conv_nth)
    with p have "node_at (Element di cl ch) (i # p) = Some el" by simp
    with p(2) show ?thesis by blast
  qed
qed

lemma querySelectorAll_empty_iff:
  "querySelectorAll sel d = [] \<longleftrightarrow> \<not> (\<exists>p el. node_at d p = Some el \<and> matches_selector sel el)"
  using querySelectorAll_found querySelectorAll_path by blast















section \<open>Normalizing colours\<close>

lemma letter_name: "is_name nm \<Longrightarrow> c \<in> set nm \<Longrightarrow> letter c \<and> lower c = c"
  by (auto simp: is_name_def js_def letter_def lower_def)

lemma name_length: "is_name nm \<Longrightarrow> nm \<noteq> []"
  by (auto simp: is_name_def js_def)

lemma matches_ci_lower: "\<not> (65 \<le> p \<and> p \<le> 90) \<Longrightarrow> matches_ci p c \<longleftrightarrow> lower c = p"
  by (auto simp: matches_ci_def lower_def)

lemma starts_with_ci_prefix:
  "\<forall>p \<in> set pat. \<not> (65 \<le> p \<and> p \<le> 90) \<Longrightarrow> starts_with_ci pat s \<longleftrightarrow> prefix pat (map lower s)"
proof (induction pat s rule: starts_with_ci.induct)
  case (1 s)
  show ?case by simp
next
  case (2 p ps)
  show ?case by simp
next
  case (3 p ps c cs)
  then show ?case by (auto simp: matches_ci_lower)
qed

lemma sep_not_letter: "sep c \<Longrightarrow> \<not> letter c"
  by (auto simp: sep_def letter_def lower_def)

lemma lower_letter: "letter (lower c) = letter c"
  by (auto simp: letter_def lower_def)

text \<open>The text splits in one way into letters, a first character that is not a letter,
  and the rest.\<close>

lemma word_split:
  assumes "\<forall>c \<in> set N. letter c" "\<not> letter c0"
  shows "takeWhile letter (N @ c0 # r) = N" "dropWhile letter (N @ c0 # r) = c0 # r"
  using assms by simp_all

lemma prefix_shape:
  assumes "prefix (nm @ [c]) (map lower s)" "is_name nm" "\<not> letter c"
  shows "\<exists>N c' r. s = N @ c' # r \<and> map lower N = nm \<and> lower c' = c
           \<and> (\<forall>x \<in> set N. letter x) \<and> \<not> letter c'"
proof -
  from assms(1) obtain t where t: "map lower s = nm @ c # t" by (auto simp: prefix_def)
  then obtain N s1 where N: "s = N @ s1" "map lower N = nm" "map lower s1 = c # t"
    by (auto simp: map_eq_append_conv)
  then obtain c' r where c': "s1 = c' # r" "lower c' = c" by (auto simp: map_eq_Cons_conv)
  have "\<forall>x \<in> set N. letter x"
  proof
    fix x assume "x \<in> set N"
    with N(2) have "lower x \<in> set nm" by auto
    from letter_name [OF assms(2) this] show "letter x" by (simp add: lower_letter)
  qed
  moreover from c' assms(3) have "\<not> letter c'" using lower_letter [of c'] by simp
  ultimately show ?thesis using N c' by blast
qed

lemma hit_of_shape:
  assumes "map lower N = nm" "is_name nm" "sep c"
  shows "hit (N @ c # r)"
proof -
  have "\<forall>x \<in> set N. letter x"
  proof
    fix x assume "x \<in> set N"
    with assms(1) have "lower x \<in> set nm" by auto
    from letter_name [OF assms(2) this] show "letter x" by (simp add: lower_letter)
  qed
  with word_split [of N c r] sep_not_letter [OF assms(3)] assms show ?thesis
    by (simp add: hit_def)
qed

lemma match_attr_shape:
  assumes "match_attr nm q s = Some n" "is_name nm" "q = DQ \<or> q = SQ"
  shows "\<exists>N r. s = N @ 61 # q # r \<and> map lower N = nm \<and> (\<forall>x \<in> set N. letter x)
           \<and> \<not> excluded_value r \<and> q \<in> set r
           \<and> n = length N + 2 + length (takeWhile (\<lambda>c. c \<noteq> q) r) + 1"
proof -
  from assms(1) have sw: "starts_with_ci (nm @ [61, q]) s"
    and ex: "\<not> excluded_value (drop (length nm + 2) s)"
    and qin: "q \<in> set (drop (length nm + 2) s)"
    and n: "n = length nm + 2 + length (takeWhile (\<lambda>c. c \<noteq> q) (drop (length nm + 2) s)) + 1"
    by (auto simp: match_attr_def Let_def split: if_splits)
  have low: "\<forall>p \<in> set (nm @ [61, q]). \<not> (65 \<le> p \<and> p \<le> 90)"
    using assms(2,3) by (auto simp: is_name_def js_def)
  from sw low have "prefix (nm @ [61, q]) (map lower s)" by (simp add: starts_with_ci_prefix)
  then have p2: "prefix ((nm @ [61]) @ [q]) (map lower s)" by simp
  then have "prefix (nm @ [61]) (map lower s)" using append_prefixD by blast
  from prefix_shape [OF this assms(2)] obtain N c' r0 where
    N: "s = N @ c' # r0" "map lower N = nm" "lower c' = 61" "\<forall>x \<in> set N. letter x"
    by (auto simp: letter_def lower_def)
  from N(3) have c': "c' = 61" by (auto simp: lower_def split: if_splits)
  from N(2) have len: "length N = length nm" by auto
  from p2 N len have "prefix [q] (map lower r0)"
    by (simp add: c' lower_def)
  then obtain q' r where r: "r0 = q' # r" "lower q' = q"
    by (cases r0) auto
  with assms(3) have q': "q' = q" by (auto simp: lower_def split: if_splits)
  have s: "s = N @ 61 # q # r" using N(1) r(1) c' q' by simp
  then have d: "drop (length nm + 2) s = r" using len by simp
  have "\<not> excluded_value r" using ex d by simp
  moreover have "q \<in> set r" using qin d by simp
  moreover have "n = length N + 2 + length (takeWhile (\<lambda>c. c \<noteq> q) r) + 1"
    using n d len by simp
  ultimately show ?thesis using s N(2,4) by blast
qed

lemma match_style_shape:
  assumes "match_style nm s = Some n" "is_name nm"
  shows "\<exists>N r. s = N @ 58 # r \<and> map lower N = nm \<and> (\<forall>x \<in> set N. letter x)
           \<and> \<not> excluded_value (dropWhile is_space r)
           \<and> takeWhile (\<lambda>c. \<not> stop_char c) (dropWhile is_space r) \<noteq> []
           \<and> n = length N + 1 + length (takeWhile is_space r)
                 + length (takeWhile (\<lambda>c. \<not> stop_char c) (dropWhile is_space r))"
proof -
  have sc: "(\<lambda>c. c \<noteq> 59 \<and> c \<noteq> 125 \<and> \<not> is_space c) = (\<lambda>c. \<not> stop_char c)"
    by (auto simp: stop_char_def)
  from assms(1) have sw: "starts_with_ci (nm @ [58]) s"
    and ex: "\<not> excluded_value (dropWhile is_space (drop (length nm + 1) s))"
    and run: "takeWhile (\<lambda>c. \<not> stop_char c) (dropWhile is_space (drop (length nm + 1) s)) \<noteq> []"
    and n: "n = length nm + 1 + length (takeWhile is_space (drop (length nm + 1) s))
              + length (takeWhile (\<lambda>c. \<not> stop_char c)
                  (dropWhile is_space (drop (length nm + 1) s)))"
    by (auto simp: match_style_def Let_def sc split: if_splits)
  have low: "\<forall>p \<in> set (nm @ [58]). \<not> (65 \<le> p \<and> p \<le> 90)"
    using assms(2) by (auto simp: is_name_def js_def)
  from sw low have "prefix (nm @ [58]) (map lower s)" by (simp add: starts_with_ci_prefix)
  from prefix_shape [OF this assms(2)] obtain N c' r where
    N: "s = N @ c' # r" "map lower N = nm" "lower c' = 58" "\<forall>x \<in> set N. letter x"
    by (auto simp: letter_def lower_def)
  from N(3) have c': "c' = 58" by (auto simp: lower_def split: if_splits)
  from N(2) have len: "length N = length nm" by auto
  have s: "s = N @ 58 # r" using N(1) c' by simp
  then have d: "drop (length nm + 1) s = r" using len by simp
  have "\<not> excluded_value (dropWhile is_space r)" using ex d by simp
  moreover have "takeWhile (\<lambda>c. \<not> stop_char c) (dropWhile is_space r) \<noteq> []"
    using run d by simp
  moreover have "n = length N + 1 + length (takeWhile is_space r)
                 + length (takeWhile (\<lambda>c. \<not> stop_char c) (dropWhile is_space r))"
    using n d len by simp
  ultimately show ?thesis using s N(2,4) by blast
qed

lemma match_attr_hit:
  assumes "match_attr nm q s = Some n" "is_name nm" "q = DQ \<or> q = SQ"
  shows "hit s"
proof -
  from match_attr_shape [OF assms] obtain N r where "s = N @ 61 # q # r" "map lower N = nm"
    by blast
  with hit_of_shape [of N nm 61 "q # r"] assms(2) show ?thesis by (simp add: sep_def)
qed

lemma match_style_hit:
  assumes "match_style nm s = Some n" "is_name nm"
  shows "hit s"
proof -
  from match_style_shape [OF assms] obtain N r where "s = N @ 58 # r" "map lower N = nm"
    by blast
  with hit_of_shape [of N nm 58 r] assms(2) show ?thesis by (simp add: sep_def)
qed

lemma sound_None: "sound m \<Longrightarrow> \<not> hit s \<Longrightarrow> m s = None"
  by (cases "m s") (auto simp: sound_def)

lemma replace_global_skip:
  assumes "\<And>i. i < length R \<Longrightarrow> m (drop i (R @ x)) = None"
  shows "replace_global m r (R @ x) = R @ replace_global m r x"
  using assms
proof (induction R)
  case Nil
  show ?case by simp
next
  case (Cons a R)
  from Cons.prems [of 0] have "m (a # R @ x) = None" by simp
  moreover have "replace_global m r (R @ x) = R @ replace_global m r x"
  proof (rule Cons.IH)
    fix i assume "i < length R"
    with Cons.prems [of "Suc i"] show "m (drop i (R @ x)) = None" by simp
  qed
  ultimately show ?case by simp
qed

lemma replace_global_match:
  assumes "m (d @ x) = Some (length d)" "d \<noteq> []"
  shows "replace_global m r (d @ x) = r @ replace_global m r x"
proof -
  from assms(2) obtain a d' where d: "d = a # d'" by (cases d) auto
  with assms(1) show ?thesis by simp
qed

lemma hit_Nil: "\<not> hit []"
  by (simp add: hit_def is_name_def js_def)

lemma hit_nonletter: "\<not> letter c \<Longrightarrow> \<not> hit (c # t)"
  by (simp add: hit_def is_name_def js_def)

lemma hit_boundary: "boundary t \<Longrightarrow> \<not> hit t"
  by (cases t) (simp_all add: hit_Nil hit_nonletter boundary_def)

lemma hit_nosep:
  assumes "\<forall>c \<in> set u. \<not> sep c" "boundary t"
  shows "\<not> hit (u @ t)"
proof (cases "\<forall>c \<in> set u. letter c")
  case True
  then have dw: "dropWhile letter (u @ t) = dropWhile letter t" by simp
  from assms(2) have "dropWhile letter t = t" by (cases t) (simp_all add: boundary_def)
  with dw have dw': "dropWhile letter (u @ t) = t" by simp
  have "\<not> (case t of [] \<Rightarrow> False | c # cs \<Rightarrow> sep c)"
    using assms(2) by (cases t) (simp_all add: boundary_def)
  then show ?thesis unfolding hit_def dw' by simp
next
  case False
  then obtain y where y: "y \<in> set u" "\<not> letter y" by blast
  have "dropWhile letter (u @ t) = dropWhile letter u @ t"
    using y by (rule dropWhile_append1)
  moreover from False have ne: "dropWhile letter u \<noteq> []" by (simp add: dropWhile_eq_Nil_conv)
  then obtain c cs where c: "dropWhile letter u = c # cs" by (cases "dropWhile letter u") auto
  then have "c \<in> set u" by (metis list.set_intros(1) set_dropWhileD)
  with assms(1) have "\<not> sep c" by simp
  ultimately show ?thesis using c by (simp add: hit_def)
qed

lemma name_inner: "is_name nm \<Longrightarrow> 1 \<le> i \<Longrightarrow> \<not> is_name (drop i nm)"
proof -
  assume nm: "is_name nm" and i: "1 \<le> i"
  consider "i = 1" | "i = 2" | "i = 3" | "i = 4" | "i = 5" | "6 \<le> i" using i by linarith
  then show ?thesis using nm
    by cases (auto simp: is_name_def js_def)
qed

lemma all_letters: "is_name (map lower N) \<Longrightarrow> \<forall>x \<in> set N. letter x"
proof
  fix x assume n: "is_name (map lower N)" and "x \<in> set N"
  then have "lower x \<in> set (map lower N)" by simp
  from letter_name [OF n this] show "letter x" by (simp add: lower_letter)
qed

lemma hit_name_tail:
  assumes "is_name (map lower N)" "\<not> letter c0" "1 \<le> i" "i < length N"
  shows "\<not> hit (drop i N @ c0 # t)"
proof -
  from all_letters [OF assms(1)] have "\<forall>x \<in> set (drop i N). letter x"
    by (meson in_set_dropD)
  with assms(2) have "takeWhile letter (drop i N @ c0 # t) = drop i N"
    by simp
  moreover have "\<not> is_name (map lower (drop i N))"
    using name_inner [OF assms(1,3)] by (simp add: drop_map)
  ultimately show ?thesis by (simp add: hit_def)
qed

lemma hit_quiet:
  assumes "quiet p" "i < length p" "headed x"
  shows "\<not> hit (drop i p @ x)"
proof (cases "\<forall>c \<in> set (drop i p). letter c")
  case False
  then obtain y where y: "y \<in> set (drop i p)" "\<not> letter y" by blast
  have tw: "takeWhile letter (drop i p @ x) = takeWhile letter (drop i p)"
    using y by (rule takeWhile_append1)
  have dw: "dropWhile letter (drop i p @ x) = dropWhile letter (drop i p) @ x"
    using y by (rule dropWhile_append1)
  from False have "dropWhile letter (drop i p) \<noteq> []" by (simp add: dropWhile_eq_Nil_conv)
  then obtain c cs where c: "dropWhile letter (drop i p) = c # cs"
    by (cases "dropWhile letter (drop i p)") auto
  have "hit (drop i p @ x) = hit (drop i p)"
    unfolding hit_def tw dw c by simp
  with assms(1,2) show ?thesis by (simp add: quiet_def)
next
  case True
  from assms(2) have ne: "drop i p \<noteq> []" by simp
  show ?thesis
  proof (cases "x = []")
    case True
    with assms(1,2) show ?thesis by (simp add: quiet_def)
  next
    case False
    with assms(3) obtain N c t where x: "x = N @ c # t" "is_name (map lower N)" "\<not> letter c"
      by (auto simp: headed_def)
    from all_letters [OF x(2)] True x(3)
    have "takeWhile letter (drop i p @ N @ c # t) = drop i p @ N"
      by simp
    moreover have "\<not> is_name (map lower (drop i p @ N))"
    proof
      assume n: "is_name (map lower (drop i p @ N))"
      from ne have "1 \<le> length (drop i p)" by (cases "drop i p") simp_all
      from name_inner [OF n this] x(2) show False by simp
    qed
    ultimately show ?thesis by (simp add: hit_def x(1))
  qed
qed

text \<open>A pass over a stretch of text in which no pattern can begin.\<close>

lemma pass_foreign:
  assumes "sound m" "quiet p" "is_name (map lower N)" "\<not> letter c0"
      and "\<forall>c \<in> set u. \<not> sep c" "boundary t" "m (N @ c0 # u @ t) = None"
  shows "replace_global m r (p @ N @ c0 # u @ t) = p @ N @ c0 # u @ replace_global m r t"
proof -
  let ?d = "N @ c0 # u"
  have hd: "headed (?d @ t)" using assms(3,4) by (auto simp: headed_def)
  have "m (drop i ((p @ ?d) @ t)) = None" if i: "i < length (p @ ?d)" for i
  proof -
    consider "i < length p" | "i = length p" | "length p < i" "i - length p < length N"
      | "i - length p = length N" "length p < i" | "length N < i - length p" by linarith
    then show ?thesis
    proof cases
      case 1
      then have "drop i ((p @ ?d) @ t) = drop i p @ (?d @ t)" by simp
      with hit_quiet [OF assms(2) 1 hd] assms(1) show ?thesis by (simp add: sound_None)
    next
      case 2
      with assms(7) show ?thesis by simp
    next
      case 3
      then have "drop i ((p @ ?d) @ t) = drop (i - length p) N @ c0 # u @ t" by simp
      moreover from 3 have "1 \<le> i - length p" by simp
      ultimately show ?thesis
        using hit_name_tail [OF assms(3,4) _ 3(2)] assms(1) by (simp add: sound_None)
    next
      case 4
      then have "drop i ((p @ ?d) @ t) = c0 # u @ t" by simp
      with hit_nonletter [OF assms(4)] assms(1) show ?thesis by (simp add: sound_None)
    next
      case 5
      with i have "i - length p - length N - 1 < length u" by simp
      with 5 have "drop i ((p @ ?d) @ t) = drop (i - length p - length N - 1) u @ t"
        by (simp add: drop_Cons')
      moreover have "\<forall>c \<in> set (drop (i - length p - length N - 1) u). \<not> sep c"
        using assms(5) by (meson in_set_dropD)
      ultimately show ?thesis
        using hit_nosep [OF _ assms(6)] assms(1) by (simp add: sound_None)
    qed
  qed
  from replace_global_skip [of "p @ ?d" m t r, OF this] show ?thesis by simp
qed

lemma pass_own:
  assumes "sound m" "quiet p" "is_name (map lower N)" "\<not> letter c0"
      and "m (N @ c0 # u @ t) = Some (length (N @ c0 # u))"
  shows "replace_global m r (p @ N @ c0 # u @ t) = p @ r @ replace_global m r t"
proof -
  let ?d = "N @ c0 # u"
  have hd: "headed (?d @ t)" using assms(3,4) by (auto simp: headed_def)
  have "m (drop i (p @ ?d @ t)) = None" if i: "i < length p" for i
  proof -
    from i have "drop i (p @ ?d @ t) = drop i p @ (?d @ t)" by simp
    with hit_quiet [OF assms(2) i hd] assms(1) show ?thesis by (simp add: sound_None)
  qed
  from replace_global_skip [of p m "?d @ t" r, OF this]
  have "replace_global m r (p @ ?d @ t) = p @ replace_global m r (?d @ t)" .
  moreover have "replace_global m r (?d @ t) = r @ replace_global m r t"
    using assms(5) by (intro replace_global_match) simp_all
  ultimately show ?thesis by simp
qed

lemma pass_boundary:
  assumes "sound m" "boundary t"
  shows "boundary (replace_global m r t)"
proof (cases t)
  case Nil
  then show ?thesis by (simp add: boundary_def)
next
  case (Cons c cs)
  with assms(2) have "\<not> letter c" by (simp add: boundary_def)
  with hit_nonletter [of c cs] assms(1) have "m (c # cs) = None" by (simp add: sound_None)
  with Cons assms(2) show ?thesis by (simp add: boundary_def)
qed

lemma pass_nonletter:
  assumes "sound m" "\<not> letter c"
  shows "replace_global m r (c # t) = c # replace_global m r t"
proof -
  from hit_nonletter [OF assms(2), of t] assms(1) have "m (c # t) = None" by (simp add: sound_None)
  then show ?thesis by simp
qed

lemma pass_quiet:
  assumes "sound m" "quiet p"
  shows "replace_global m r p = p"
proof -
  have "m (drop i (p @ [])) = None" if "i < length p" for i
    using hit_quiet [OF assms(2) that, of "[]"] assms(1) by (simp add: sound_None headed_def)
  from replace_global_skip [of p m "[]" r, OF this] show ?thesis by simp
qed

lemma convert_pipeline: "convertToCurrentColor s = fold pass pipeline s"
  by (simp add: convertToCurrentColor_def pipeline_def pass_def)

lemma valid_pipeline: "pf \<in> set pipeline \<Longrightarrow> valid_pass pf"
  by (auto simp: pipeline_def is_name_def)

lemma distinct_pipeline: "distinct pipeline"
  by (simp add: pipeline_def js_def)

lemma pipeline_member:
  "is_name nm \<Longrightarrow> (nm, Style) \<in> set pipeline"
  "is_name nm \<Longrightarrow> q = DQ \<or> q = SQ \<Longrightarrow> (nm, Attr q) \<in> set pipeline"
  by (auto simp: pipeline_def is_name_def)

lemma pipeline_split:
  assumes "pf \<in> set pipeline"
  shows "\<exists>ps1 ps2. pipeline = ps1 @ pf # ps2 \<and> pf \<notin> set ps1 \<and> pf \<notin> set ps2"
proof -
  from split_list [OF assms] obtain ps1 ps2 where s: "pipeline = ps1 @ pf # ps2" by blast
  from distinct_pipeline have "distinct (ps1 @ pf # ps2)" unfolding s .
  then have "pf \<notin> set ps1 \<and> pf \<notin> set ps2" by auto
  with s show ?thesis by blast
qed

lemma sound_matcher: "valid_pass pf \<Longrightarrow> sound (matcher pf)"
proof (cases pf)
  case (Pair nm f)
  assume v: "valid_pass pf"
  show ?thesis
  proof (cases f)
    case (Attr q)
    with v Pair show ?thesis by (auto simp: sound_def intro: match_attr_hit)
  next
    case Style
    with v Pair show ?thesis by (auto simp: sound_def intro: match_style_hit)
  qed
qed

lemma split_unique:
  assumes "N @ c # r = N' @ c' # r'" "\<forall>x \<in> set N. letter x" "\<forall>x \<in> set N'. letter x"
      and "\<not> letter c" "\<not> letter c'"
  shows "N = N' \<and> c = c' \<and> r = r'"
proof -
  have "takeWhile letter (N @ c # r) = N" using assms(2,4) by simp
  moreover have "takeWhile letter (N' @ c' # r') = N'"
    using assms(3,5) by simp
  ultimately have "N = N'" using assms(1) by simp
  with assms(1) show ?thesis by simp
qed

lemma nonletter_61: "\<not> letter 61" and nonletter_58: "\<not> letter 58"
  by (simp_all add: letter_def lower_def)

lemma quote_nonletter: "q = DQ \<or> q = SQ \<Longrightarrow> \<not> letter q \<and> \<not> sep q"
  by (auto simp: letter_def lower_def sep_def)

lemma matcher_other_attr:
  assumes "valid_pass pf" "is_name (map lower N)" "pf \<noteq> (map lower N, Attr q)"
  shows "matcher pf (N @ 61 # q # w) = None"
proof (rule ccontr)
  assume "matcher pf (N @ 61 # q # w) \<noteq> None"
  then obtain n where n: "matcher pf (N @ 61 # q # w) = Some n" by auto
  obtain nm f where pf: "pf = (nm, f)" by (cases pf)
  note L = all_letters [OF assms(2)]
  show False
  proof (cases f)
    case (Attr q')
    with n pf assms(1) have "match_attr nm q' (N @ 61 # q # w) = Some n" "is_name nm"
      "q' = DQ \<or> q' = SQ" by simp_all
    from match_attr_shape [OF this] obtain N' r where
      s: "N @ 61 # q # w = N' @ 61 # q' # r" "map lower N' = nm" "\<forall>x \<in> set N'. letter x"
      by blast
    from split_unique [OF s(1) L s(3) nonletter_61 nonletter_61] have "N = N'" "q = q'" by simp_all
    with s(2) pf Attr assms(3) show False by simp
  next
    case Style
    with n pf assms(1) have "match_style nm (N @ 61 # q # w) = Some n" "is_name nm" by simp_all
    from match_style_shape [OF this] obtain N' r where
      s: "N @ 61 # q # w = N' @ 58 # r" "\<forall>x \<in> set N'. letter x" by blast
    from split_unique [OF s(1) L s(2) nonletter_61 nonletter_58] show False by simp
  qed
qed

lemma matcher_other_style:
  assumes "valid_pass pf" "is_name (map lower N)" "pf \<noteq> (map lower N, Style)"
  shows "matcher pf (N @ 58 # w) = None"
proof (rule ccontr)
  assume "matcher pf (N @ 58 # w) \<noteq> None"
  then obtain n where n: "matcher pf (N @ 58 # w) = Some n" by auto
  obtain nm f where pf: "pf = (nm, f)" by (cases pf)
  note L = all_letters [OF assms(2)]
  show False
  proof (cases f)
    case (Attr q')
    with n pf assms(1) have "match_attr nm q' (N @ 58 # w) = Some n" "is_name nm"
      "q' = DQ \<or> q' = SQ" by simp_all
    from match_attr_shape [OF this] obtain N' r where
      s: "N @ 58 # w = N' @ 61 # q' # r" "\<forall>x \<in> set N'. letter x" by blast
    from split_unique [OF s(1) L s(2) nonletter_58 nonletter_61] show False by simp
  next
    case Style
    with n pf assms(1) have "match_style nm (N @ 58 # w) = Some n" "is_name nm" by simp_all
    from match_style_shape [OF this] obtain N' r where
      s: "N @ 58 # w = N' @ 58 # r" "map lower N' = nm" "\<forall>x \<in> set N'. letter x" by blast
    from split_unique [OF s(1) L s(3) nonletter_58 nonletter_58] have "N = N'" by simp
    with s(2) pf Style assms(3) show False by simp
  qed
qed

lemma lowercase_words:
  "\<forall>p \<in> set (js ''none''). \<not> (65 \<le> p \<and> p \<le> 90)"
  "\<forall>p \<in> set (js ''transparent''). \<not> (65 \<le> p \<and> p \<le> 90)"
  by (simp_all add: js_def)

lemma excluded_prefix:
  "excluded_value v \<longleftrightarrow>
     prefix (js ''none'') (map lower v) \<or> prefix (js ''transparent'') (map lower v)"
  by (simp add: excluded_value_def starts_with_ci_prefix lowercase_words)

lemma excluded_mono: "excluded_value v \<Longrightarrow> excluded_value (v @ w)"
  by (auto simp: excluded_prefix intro: prefix_prefix)

lemma word_letters:
  "c \<in> set (js ''none'') \<Longrightarrow> letter c" "c \<in> set (js ''transparent'') \<Longrightarrow> letter c"
  by (auto simp: js_def letter_def lower_def)

lemma prefix_cut:
  assumes "prefix pat (a @ c # b)" "c \<notin> set pat"
  shows "prefix pat a"
proof -
  from assms(1) consider "prefix pat a" | us where "pat = a @ us" "prefix us (c # b)"
    by (auto simp: prefix_append)
  then show ?thesis
  proof cases
    case 1
    then show ?thesis .
  next
    case 2
    show ?thesis
    proof (cases us)
      case Nil
      with 2 show ?thesis by simp
    next
      case (Cons x xs)
      with 2 have "x = c" by simp
      with 2 Cons assms(2) show ?thesis by simp
    qed
  qed
qed

lemma excluded_cut:
  assumes "\<not> excluded_value v" "w = [] \<or> \<not> letter (hd w)"
  shows "\<not> excluded_value (v @ w)"
proof (cases w)
  case Nil
  with assms show ?thesis by simp
next
  case (Cons c cs)
  with assms(2) have nl: "\<not> letter (lower c)" by (simp add: lower_letter)
  have "\<not> prefix pat (map lower (v @ w))"
    if "\<not> prefix pat (map lower v)" "\<forall>x \<in> set pat. letter x" for pat
  proof
    assume "prefix pat (map lower (v @ w))"
    then have "prefix pat (map lower v @ lower c # map lower cs)" by (simp add: Cons)
    moreover from that(2) nl have "lower c \<notin> set pat" by blast
    ultimately have "prefix pat (map lower v)" by (rule prefix_cut)
    with that(1) show False by simp
  qed
  with assms(1) word_letters show ?thesis by (auto simp: excluded_prefix)
qed

lemma matcher_excluded_attr:
  assumes "is_name nm" "q = DQ \<or> q = SQ" "is_name (map lower N)" "excluded_value v"
  shows "match_attr nm q (N @ 61 # q' # v @ w) = None"
proof (rule ccontr)
  assume "match_attr nm q (N @ 61 # q' # v @ w) \<noteq> None"
  then obtain n where "match_attr nm q (N @ 61 # q' # v @ w) = Some n" by auto
  from match_attr_shape [OF this assms(1,2)] obtain N' r where
    s: "N @ 61 # q' # v @ w = N' @ 61 # q # r" "\<forall>x \<in> set N'. letter x" "\<not> excluded_value r"
    by blast
  from split_unique [OF s(1) all_letters [OF assms(3)] s(2) nonletter_61 nonletter_61]
  have "r = v @ w" by simp
  with s(3) excluded_mono [OF assms(4)] show False by simp
qed

lemma excluded_nonempty: "excluded_value v \<Longrightarrow> v \<noteq> [] \<and> letter (hd v)"
proof -
  assume "excluded_value v"
  then consider "prefix (js ''none'') (map lower v)" | "prefix (js ''transparent'') (map lower v)"
    by (auto simp: excluded_prefix)
  then show ?thesis
    by cases (cases v; auto simp: js_def letter_def)+
qed

lemma space_nonletter: "is_space c \<Longrightarrow> \<not> letter c \<and> \<not> sep c"
  by (auto simp: is_space_def letter_def lower_def sep_def)

lemma stop_nonletter: "stop_char c \<Longrightarrow> \<not> letter c \<and> \<not> sep c"
  by (auto simp: stop_char_def is_space_def letter_def lower_def sep_def)

lemma matcher_excluded_style:
  assumes "is_name nm" "is_name (map lower N)" "excluded_value v" "\<forall>c \<in> set ws. is_space c"
  shows "match_style nm (N @ 58 # ws @ v @ w) = None"
proof (rule ccontr)
  assume "match_style nm (N @ 58 # ws @ v @ w) \<noteq> None"
  then obtain n where "match_style nm (N @ 58 # ws @ v @ w) = Some n" by auto
  from match_style_shape [OF this assms(1)] obtain N' r where
    s: "N @ 58 # ws @ v @ w = N' @ 58 # r" "\<forall>x \<in> set N'. letter x"
       "\<not> excluded_value (dropWhile is_space r)"
    by blast
  from split_unique [OF s(1) all_letters [OF assms(2)] s(2) nonletter_58 nonletter_58]
  have r: "r = ws @ v @ w" by simp
  from excluded_nonempty [OF assms(3)] obtain c cs where v: "v = c # cs" "letter c"
    by (cases v) auto
  then have "\<not> is_space c" using space_nonletter by blast
  with assms(4) v have "dropWhile is_space r = v @ w"
    by (simp add: r dropWhile_append2)
  with s(3) excluded_mono [OF assms(3)] show False by simp
qed

lemma name_lowercase: "is_name nm \<Longrightarrow> map lower nm = nm"
  by (auto simp: is_name_def js_def lower_def)

lemma starts_with_ci_open:
  assumes "is_name nm" "map lower N = nm" "\<forall>c \<in> set cs. \<not> letter c"
  shows "starts_with_ci (nm @ cs) (N @ cs @ w)"
proof -
  have low: "\<forall>p \<in> set (nm @ cs). \<not> (65 \<le> p \<and> p \<le> 90)"
    using assms(1,3) by (auto simp: is_name_def js_def letter_def lower_def)
  have "map lower cs = cs"
    using assms(3) by (induction cs) (auto simp: letter_def lower_def)
  then have "prefix (nm @ cs) (map lower (N @ cs @ w))" using assms(2) by simp
  with low show ?thesis by (simp add: starts_with_ci_prefix)
qed

lemma takeWhile_until: "q \<notin> set v \<Longrightarrow> takeWhile (\<lambda>c. c \<noteq> q) (v @ q # t) = v"
  by (induction v) auto

lemma match_attr_own:
  assumes "is_name nm" "map lower N = nm" "q = DQ \<or> q = SQ" "q \<notin> set v"
      and "\<not> excluded_value v"
  shows "match_attr nm q (N @ 61 # q # v @ q # t) = Some (length (N @ 61 # q # v @ [q]))"
proof -
  from quote_nonletter [OF assms(3)] have nl: "\<not> letter q" by simp
  have "starts_with_ci (nm @ [61, q]) (N @ [61, q] @ (v @ q # t))"
    using assms(1,2) nl nonletter_61 by (intro starts_with_ci_open) simp_all
  then have sw: "starts_with_ci (nm @ [61, q]) (N @ 61 # q # v @ q # t)" by simp
  from assms(2) have len: "length nm = length N" by auto
  then have d: "drop (length (nm @ [61, q])) (N @ 61 # q # v @ q # t) = v @ q # t" by simp
  have ex: "\<not> excluded_value (v @ q # t)"
    using assms(5) nl by (intro excluded_cut) simp_all
  have tw: "takeWhile (\<lambda>c. c \<noteq> q) (v @ q # t) = v"
    using assms(4) by (rule takeWhile_until)
  show ?thesis
    unfolding match_attr_def Let_def d using sw ex tw len by simp
qed

lemma match_style_own:
  assumes "is_name nm" "map lower N = nm" "\<forall>c \<in> set ws. is_space c" "v \<noteq> []"
      and "\<forall>c \<in> set v. \<not> stop_char c" "\<not> excluded_value v" "t = [] \<or> stop_char (hd t)"
  shows "match_style nm (N @ 58 # ws @ v @ t) = Some (length (N @ 58 # ws @ v))"
proof -
  have sc: "(\<lambda>c. c \<noteq> 59 \<and> c \<noteq> 125 \<and> \<not> is_space c) = (\<lambda>c. \<not> stop_char c)"
    by (auto simp: stop_char_def)
  have "starts_with_ci (nm @ [58]) (N @ [58] @ (ws @ v @ t))"
    using assms(1,2) nonletter_58 by (intro starts_with_ci_open) simp_all
  then have sw: "starts_with_ci (nm @ [58]) (N @ 58 # ws @ v @ t)" by simp
  from assms(2) have len: "length nm = length N" by auto
  then have d: "drop (length (nm @ [58])) (N @ 58 # ws @ v @ t) = ws @ v @ t" by simp
  from assms(4,5) obtain c cs where v: "v = c # cs" "\<not> is_space c"
    by (cases v) (auto simp: stop_char_def)
  have tws: "takeWhile is_space (ws @ v @ t) = ws"
    using assms(3) v by simp
  have dws: "dropWhile is_space (ws @ v @ t) = v @ t"
    using assms(3) v by simp
  have run: "takeWhile (\<lambda>c. \<not> stop_char c) (v @ t) = v"
  proof (cases t)
    case Nil
    with assms(5) show ?thesis by simp
  next
    case (Cons a as)
    with assms(7) have "stop_char a" by simp
    with assms(5) Cons show ?thesis by simp
  qed
  have ex: "\<not> excluded_value (v @ t)"
  proof (rule excluded_cut [OF assms(6)])
    show "t = [] \<or> \<not> letter (hd t)" using assms(7) stop_nonletter by blast
  qed
  show ?thesis
    unfolding match_style_def Let_def d sc tws dws run using sw ex len assms(4) by simp
qed

lemma fold_pass_boundary:
  assumes "\<forall>pf \<in> set ps. valid_pass pf" "boundary t"
  shows "boundary (fold pass ps t)"
  using assms
proof (induction ps arbitrary: t)
  case Nil
  then show ?case by simp
next
  case (Cons pf ps)
  then have "boundary (pass pf t)"
    unfolding pass_def by (intro pass_boundary sound_matcher) simp_all
  with Cons show ?case by simp
qed

lemma fold_pass_nonletter:
  assumes "\<forall>pf \<in> set ps. valid_pass pf" "\<not> letter c"
  shows "fold pass ps (c # t) = c # fold pass ps t"
  using assms(1)
proof (induction ps arbitrary: t)
  case Nil
  show ?case by simp
next
  case (Cons pf ps)
  then have "pass pf (c # t) = c # pass pf t"
    unfolding pass_def using assms(2) by (intro pass_nonletter sound_matcher) simp_all
  with Cons show ?case by simp
qed

lemma fold_pass_Nil: "fold pass ps [] = []"
  by (induction ps) (simp_all add: pass_def)

text \<open>Passes that cannot match at the head of a directive leave it and the quiet text
  before it as they are.\<close>

lemma fold_pass_foreign:
  assumes "\<forall>pf \<in> set ps. valid_pass pf" "quiet p" "is_name (map lower N)" "\<not> letter c0"
      and "\<forall>c \<in> set u. \<not> sep c" "boundary t"
      and "\<forall>pf \<in> set ps. \<forall>w. matcher pf (N @ c0 # u @ w) = None"
  shows "fold pass ps (p @ N @ c0 # u @ t) = p @ N @ c0 # u @ fold pass ps t"
  using assms(1,6,7)
proof (induction ps arbitrary: t)
  case Nil
  show ?case by simp
next
  case (Cons pf ps)
  from Cons.prems have v: "valid_pass pf" and none: "matcher pf (N @ c0 # u @ t) = None"
    by simp_all
  have "pass pf (p @ N @ c0 # u @ t) = p @ N @ c0 # u @ pass pf t"
    unfolding pass_def
    by (rule pass_foreign [OF sound_matcher [OF v] assms(2-5) Cons.prems(2) none])
  moreover have "boundary (pass pf t)"
    unfolding pass_def by (rule pass_boundary [OF sound_matcher [OF v] Cons.prems(2)])
  moreover have "fold pass ps (p @ N @ c0 # u @ pass pf t)
                  = p @ N @ c0 # u @ fold pass ps (pass pf t)"
    using Cons.prems calculation(2) by (intro Cons.IH) simp_all
  ultimately show ?case by simp
qed

lemma fold_pass_quiet:
  assumes "\<forall>pf \<in> set ps. valid_pass pf" "quiet p"
  shows "fold pass ps p = p"
  using assms(1)
proof (induction ps)
  case Nil
  show ?case by simp
next
  case (Cons pf ps)
  then have "pass pf p = p"
    unfolding pass_def using assms(2) by (intro pass_quiet sound_matcher) simp_all
  with Cons show ?case by simp
qed

lemma nosep_currentColor: "\<forall>c \<in> set (js ''currentColor''). \<not> sep c"
  by (simp add: js_def sep_def)

lemma convert_attr_excluded:
  assumes "is_name (map lower N)" "q = DQ \<or> q = SQ" "\<forall>c \<in> set v. \<not> sep c"
      and "excluded_value v" "quiet p"
  shows "convertToCurrentColor (p @ attr_directive N q v @ t)
           = p @ attr_directive N q v @ convertToCurrentColor t"
proof -
  note qn = quote_nonletter [OF assms(2)]
  have valid: "\<forall>pf \<in> set pipeline. valid_pass pf" using valid_pipeline by blast
  have none: "\<forall>pf \<in> set pipeline. \<forall>w. matcher pf (N @ 61 # (q # v) @ w) = None"
  proof (intro ballI allI)
    fix pf w assume "pf \<in> set pipeline"
    then have v: "valid_pass pf" by (rule valid_pipeline)
    show "matcher pf (N @ 61 # (q # v) @ w) = None"
    proof (cases "pf = (map lower N, Attr q)")
      case True
      with matcher_excluded_attr [OF assms(1,2,1,4), where w = w and q' = q] show ?thesis by simp
    next
      case False
      from matcher_other_attr [OF v assms(1) False, of "v @ w"] show ?thesis by simp
    qed
  qed
  have "fold pass pipeline (p @ N @ 61 # (q # v) @ (q # t))
          = p @ N @ 61 # (q # v) @ fold pass pipeline (q # t)"
    using qn assms(3) by (intro fold_pass_foreign [OF valid assms(5,1) nonletter_61 _ _ none])
      (simp_all add: boundary_def)
  also have "fold pass pipeline (q # t) = q # fold pass pipeline t"
    using qn by (intro fold_pass_nonletter [OF valid]) simp
  finally show ?thesis by (simp add: convert_pipeline attr_directive_def)
qed

lemma convert_style_excluded:
  assumes "is_name (map lower N)" "\<forall>c \<in> set ws. is_space c" "\<forall>c \<in> set v. \<not> sep c"
      and "excluded_value v" "boundary t" "quiet p"
  shows "convertToCurrentColor (p @ style_directive N ws v @ t)
           = p @ style_directive N ws v @ convertToCurrentColor t"
proof -
  have valid: "\<forall>pf \<in> set pipeline. valid_pass pf" using valid_pipeline by blast
  have none: "\<forall>pf \<in> set pipeline. \<forall>w. matcher pf (N @ 58 # (ws @ v) @ w) = None"
  proof (intro ballI allI)
    fix pf w assume "pf \<in> set pipeline"
    then have v: "valid_pass pf" by (rule valid_pipeline)
    show "matcher pf (N @ 58 # (ws @ v) @ w) = None"
    proof (cases "pf = (map lower N, Style)")
      case True
      with matcher_excluded_style [OF assms(1,1,4,2), where w = w] show ?thesis by simp
    next
      case False
      from matcher_other_style [OF v assms(1) False, of "ws @ v @ w"] show ?thesis by simp
    qed
  qed
  have nosep: "\<forall>c \<in> set (ws @ v). \<not> sep c"
    using assms(2,3) space_nonletter by auto
  have "fold pass pipeline (p @ N @ 58 # (ws @ v) @ t)
          = p @ N @ 58 # (ws @ v) @ fold pass pipeline t"
    by (rule fold_pass_foreign [OF valid assms(6,1) nonletter_58 nosep assms(5) none])
  then show ?thesis by (simp add: convert_pipeline style_directive_def)
qed

lemma convert_attr_rewritten:
  assumes "is_name (map lower N)" "q = DQ \<or> q = SQ" "q \<notin> set v" "\<forall>c \<in> set v. \<not> sep c"
      and "\<not> excluded_value v" "quiet p"
  shows "convertToCurrentColor (p @ attr_directive N q v @ t)
           = p @ attr_directive (map lower N) q (js ''currentColor'') @ convertToCurrentColor t"
proof -
  let ?nm = "map lower N"
  let ?pf = "(?nm, Attr q)"
  let ?cc = "js ''currentColor''"
  note qn = quote_nonletter [OF assms(2)]
  from pipeline_member(2) [OF assms(1,2)] have mem: "?pf \<in> set pipeline" .
  from pipeline_split [OF mem] obtain ps1 ps2 where
    split: "pipeline = ps1 @ ?pf # ps2" "?pf \<notin> set ps1" "?pf \<notin> set ps2" by blast
  have "set ps1 \<subseteq> set pipeline" "set ps2 \<subseteq> set pipeline" by (auto simp: split(1))
  then have v1: "\<forall>pf \<in> set ps1. valid_pass pf" and v2: "\<forall>pf \<in> set ps2. valid_pass pf"
    using valid_pipeline by blast+
  have vpf: "valid_pass ?pf" using mem by (rule valid_pipeline)
  have none1: "\<forall>pf \<in> set ps1. \<forall>w. matcher pf (N @ 61 # (q # v) @ w) = None"
  proof (intro ballI allI)
    fix pf w assume pf: "pf \<in> set ps1"
    with split(2) have "pf \<noteq> ?pf" by blast
    from matcher_other_attr [OF _ assms(1) this, of "v @ w"] v1 pf show
      "matcher pf (N @ 61 # (q # v) @ w) = None" by simp
  qed
  have nm2: "map lower ?nm = ?nm" using assms(1) by (rule name_lowercase)
  have nm1: "is_name (map lower ?nm)" unfolding nm2 by (rule assms(1))
  note nm = nm1 nm2
  have none2: "\<forall>pf \<in> set ps2. \<forall>w. matcher pf (?nm @ 61 # (q # ?cc) @ w) = None"
  proof (intro ballI allI)
    fix pf w assume pf: "pf \<in> set ps2"
    with split(3) have "pf \<noteq> (map lower ?nm, Attr q)" unfolding nm2 by blast
    from matcher_other_attr [OF _ nm(1) this, of "?cc @ w"] v2 pf show
      "matcher pf (?nm @ 61 # (q # ?cc) @ w) = None" by simp
  qed
  have step1: "fold pass ps1 (p @ N @ 61 # (q # v) @ (q # t))
                 = p @ N @ 61 # (q # v) @ q # fold pass ps1 t"
  proof -
    have "fold pass ps1 (p @ N @ 61 # (q # v) @ (q # t))
            = p @ N @ 61 # (q # v) @ fold pass ps1 (q # t)"
      using qn assms(4) by (intro fold_pass_foreign [OF v1 assms(6,1) nonletter_61 _ _ none1])
        (simp_all add: boundary_def)
    also have "fold pass ps1 (q # t) = q # fold pass ps1 t"
      using qn by (intro fold_pass_nonletter [OF v1]) simp
    finally show ?thesis .
  qed
  define T1 where "T1 = fold pass ps1 t"
  have own: "matcher ?pf (N @ 61 # (q # v @ [q]) @ T1)
               = Some (length (N @ 61 # (q # v @ [q])))"
    using match_attr_own [OF assms(1) refl assms(2,3,5), of T1] by simp
  have "pass ?pf (p @ N @ 61 # (q # v @ [q]) @ T1) = p @ replacement ?pf @ pass ?pf T1"
    unfolding pass_def
    by (rule pass_own [OF sound_matcher [OF vpf] assms(6,1) nonletter_61 own])
  then have step2: "pass ?pf (p @ N @ 61 # (q # v @ [q]) @ fold pass ps1 t)
                 = p @ replacement ?pf @ pass ?pf (fold pass ps1 t)"
    by (simp only: T1_def)
  have rep: "attr_currentColor ?nm q = ?nm @ 61 # q # ?cc @ [q]"
    by (simp add: attr_currentColor_def)
  have step3: "fold pass ps2 (p @ ?nm @ 61 # (q # ?cc) @ (q # T))
                 = p @ ?nm @ 61 # (q # ?cc) @ q # fold pass ps2 T" for T
  proof -
    have "fold pass ps2 (p @ ?nm @ 61 # (q # ?cc) @ (q # T))
            = p @ ?nm @ 61 # (q # ?cc) @ fold pass ps2 (q # T)"
      using qn nosep_currentColor
      by (intro fold_pass_foreign [OF v2 assms(6) nm(1) nonletter_61 _ _ none2])
        (simp_all add: boundary_def)
    also have "fold pass ps2 (q # T) = q # fold pass ps2 T"
      using qn by (intro fold_pass_nonletter [OF v2]) simp
    finally show ?thesis .
  qed
  have n1: "fold pass ps1 (p @ N @ 61 # q # v @ q # t) = p @ N @ 61 # q # v @ q # fold pass ps1 t"
    using step1 by simp
  have n2: "pass ?pf (p @ N @ 61 # q # v @ q # fold pass ps1 t)
              = p @ ?nm @ 61 # q # ?cc @ q # pass ?pf (fold pass ps1 t)"
    using step2 by (simp add: rep)
  have n3: "fold pass ps2 (p @ ?nm @ 61 # q # ?cc @ q # pass ?pf (fold pass ps1 t))
              = p @ ?nm @ 61 # q # ?cc @ q # fold pass ps2 (pass ?pf (fold pass ps1 t))"
    using step3 [of "pass ?pf (fold pass ps1 t)"] by simp
  have run: "fold pass pipeline x = fold pass ps2 (pass ?pf (fold pass ps1 x))" for x
    by (simp add: split(1))
  have "fold pass pipeline (p @ N @ 61 # q # v @ q # t)
          = p @ ?nm @ 61 # q # ?cc @ q # fold pass pipeline t"
    by (simp only: run n1 n2 n3)
  then show ?thesis by (simp add: convert_pipeline attr_directive_def)
qed

lemma convert_style_rewritten:
  assumes "is_name (map lower N)" "\<forall>c \<in> set ws. is_space c" "v \<noteq> []"
      and "\<forall>c \<in> set v. \<not> stop_char c \<and> \<not> sep c" "\<not> excluded_value v"
      and "t = [] \<or> stop_char (hd t)" "quiet p"
  shows "convertToCurrentColor (p @ style_directive N ws v @ t)
           = p @ style_directive (map lower N) [32] (js ''currentColor'')
               @ convertToCurrentColor t"
proof -
  let ?nm = "map lower N"
  let ?pf = "(?nm, Style)"
  let ?cc = "js ''currentColor''"
  from pipeline_member(1) [OF assms(1)] have mem: "?pf \<in> set pipeline" .
  from pipeline_split [OF mem] obtain ps1 ps2 where
    split: "pipeline = ps1 @ ?pf # ps2" "?pf \<notin> set ps1" "?pf \<notin> set ps2" by blast
  have "set ps1 \<subseteq> set pipeline" "set ps2 \<subseteq> set pipeline" by (auto simp: split(1))
  then have v1: "\<forall>pf \<in> set ps1. valid_pass pf" and v2: "\<forall>pf \<in> set ps2. valid_pass pf"
    using valid_pipeline by blast+
  have vpf: "valid_pass ?pf" using mem by (rule valid_pipeline)
  have bt: "boundary t"
    using assms(6) stop_nonletter by (cases t) (auto simp: boundary_def)
  have none1: "\<forall>pf \<in> set ps1. \<forall>w. matcher pf (N @ 58 # (ws @ v) @ w) = None"
  proof (intro ballI allI)
    fix pf w assume pf: "pf \<in> set ps1"
    with split(2) have "pf \<noteq> ?pf" by blast
    from matcher_other_style [OF _ assms(1) this, of "ws @ v @ w"] v1 pf show
      "matcher pf (N @ 58 # (ws @ v) @ w) = None" by simp
  qed
  have nm2: "map lower ?nm = ?nm" using assms(1) by (rule name_lowercase)
  have nm1: "is_name (map lower ?nm)" unfolding nm2 by (rule assms(1))
  note nm = nm1 nm2
  have none2: "\<forall>pf \<in> set ps2. \<forall>w. matcher pf (?nm @ 58 # (32 # ?cc) @ w) = None"
  proof (intro ballI allI)
    fix pf w assume pf: "pf \<in> set ps2"
    with split(3) have "pf \<noteq> (map lower ?nm, Style)" unfolding nm2 by blast
    from matcher_other_style [OF _ nm(1) this, of "32 # ?cc @ w"] v2 pf show
      "matcher pf (?nm @ 58 # (32 # ?cc) @ w) = None" by simp
  qed
  have nosep: "\<forall>c \<in> set (ws @ v). \<not> sep c"
    using assms(2,4) space_nonletter by auto
  have step1: "fold pass ps1 (p @ N @ 58 # (ws @ v) @ t) = p @ N @ 58 # (ws @ v) @ fold pass ps1 t"
    by (rule fold_pass_foreign [OF v1 assms(7,1) nonletter_58 nosep bt none1])
  have t1: "fold pass ps1 t = [] \<or> stop_char (hd (fold pass ps1 t))"
  proof (cases t)
    case Nil
    then show ?thesis by (simp add: fold_pass_Nil)
  next
    case (Cons a as)
    with assms(6) have "stop_char a" by simp
    with stop_nonletter have "\<not> letter a" by blast
    from fold_pass_nonletter [OF v1 this, of as] Cons \<open>stop_char a\<close> show ?thesis by simp
  qed
  define T1 where "T1 = fold pass ps1 t"
  have own: "matcher ?pf (N @ 58 # (ws @ v) @ T1) = Some (length (N @ 58 # (ws @ v)))"
    using match_style_own [OF assms(1) refl assms(2,3) _ assms(5) t1] assms(4)
    by (simp add: T1_def)
  have "pass ?pf (p @ N @ 58 # (ws @ v) @ T1) = p @ replacement ?pf @ pass ?pf T1"
    unfolding pass_def
    by (rule pass_own [OF sound_matcher [OF vpf] assms(7,1) nonletter_58 own])
  then have step2: "pass ?pf (p @ N @ 58 # (ws @ v) @ fold pass ps1 t)
                 = p @ replacement ?pf @ pass ?pf (fold pass ps1 t)"
    by (simp only: T1_def)
  have rep: "style_currentColor ?nm = ?nm @ 58 # 32 # ?cc"
    by (simp add: style_currentColor_def js_def)
  have "boundary T1" unfolding T1_def by (rule fold_pass_boundary [OF v1 bt])
  then have "boundary (pass ?pf T1)"
    unfolding pass_def by (rule pass_boundary [OF sound_matcher [OF vpf]])
  then have b2: "boundary (pass ?pf (fold pass ps1 t))" by (simp only: T1_def)
  have step3: "fold pass ps2 (p @ ?nm @ 58 # (32 # ?cc) @ pass ?pf (fold pass ps1 t))
                 = p @ ?nm @ 58 # (32 # ?cc) @ fold pass ps2 (pass ?pf (fold pass ps1 t))"
    using nosep_currentColor
    by (intro fold_pass_foreign [OF v2 assms(7) nm(1) nonletter_58 _ b2 none2])
      (simp add: sep_def)
  have n1: "fold pass ps1 (p @ N @ 58 # ws @ v @ t) = p @ N @ 58 # ws @ v @ fold pass ps1 t"
    using step1 by simp
  have n2: "pass ?pf (p @ N @ 58 # ws @ v @ fold pass ps1 t)
              = p @ ?nm @ 58 # 32 # ?cc @ pass ?pf (fold pass ps1 t)"
    using step2 by (simp add: rep)
  have n3: "fold pass ps2 (p @ ?nm @ 58 # 32 # ?cc @ pass ?pf (fold pass ps1 t))
              = p @ ?nm @ 58 # 32 # ?cc @ fold pass ps2 (pass ?pf (fold pass ps1 t))"
    using step3 by simp
  have run: "fold pass pipeline x = fold pass ps2 (pass ?pf (fold pass ps1 x))" for x
    by (simp add: split(1))
  have "fold pass pipeline (p @ N @ 58 # ws @ v @ t)
          = p @ ?nm @ 58 # 32 # ?cc @ fold pass pipeline t"
    by (simp only: run n1 n2 n3)
  then show ?thesis by (simp add: convert_pipeline style_directive_def)
qed

lemma quiet_Nil: "quiet []"
  by (simp add: quiet_def)

lemma quiet_Cons: "quiet (c # cs) \<longleftrightarrow> \<not> hit (c # cs) \<and> quiet cs"
  by (auto simp: quiet_def less_Suc_eq_0_disj)

lemmas convert_eval = convertToCurrentColor_def js_def attr_currentColor_def
  style_currentColor_def match_attr_def match_style_def excluded_value_def matches_ci_def
  is_space_def attr_directive_def style_directive_def

lemmas side_eval = js_def is_name_def lower_def letter_def sep_def hit_def quiet_Nil quiet_Cons
  excluded_value_def matches_ci_def stop_char_def is_space_def boundary_def

lemma convert_quiet: "quiet p \<Longrightarrow> convertToCurrentColor p = p"
  using fold_pass_quiet [of pipeline p] valid_pipeline by (simp add: convert_pipeline)

lemma ended_hd: "ended t \<Longrightarrow> t = [] \<or> stop_char (hd t)"
  by (cases t) (auto simp: ended_def stop_char_def)

lemma ended_boundary: "ended t \<Longrightarrow> boundary t"
  using ended_hd [of t] stop_nonletter by (cases t) (auto simp: boundary_def)

lemma convert_directive:
  assumes "quiet p" "well_formed d" "closed_by d t"
  shows "convertToCurrentColor (p @ directive_text d @ t)
           = p @ normalized d @ convertToCurrentColor t"
proof (cases d)
  case (Attribute N q v)
  with assms(2) have wf: "is_name (map lower N)" "q = DQ \<or> q = SQ" "q \<notin> set v"
    "\<forall>c \<in> set v. \<not> sep c" by simp_all
  show ?thesis
  proof (cases "excluded_value v")
    case True
    from convert_attr_excluded [OF wf(1,2,4) True assms(1)] True Attribute
    show ?thesis by (simp add: normalized_def)
  next
    case False
    from convert_attr_rewritten [OF wf(1,2,3,4) False assms(1)] False Attribute
    show ?thesis by (simp add: normalized_def)
  qed
next
  case (Declaration N ws v)
  with assms(2) have wf: "is_name (map lower N)" "\<forall>c \<in> set ws. is_space c" "v \<noteq> []"
    "\<forall>c \<in> set v. value_char c" by simp_all
  from wf(4) have vs: "\<forall>c \<in> set v. \<not> stop_char c \<and> \<not> sep c" and ns: "\<forall>c \<in> set v. \<not> sep c"
    by (auto simp: value_char_def)
  from assms(3) Declaration have e: "ended t" by simp
  show ?thesis
  proof (cases "excluded_value v")
    case True
    from convert_style_excluded [OF wf(1,2) ns True ended_boundary [OF e] assms(1)] True Declaration
    show ?thesis by (simp add: normalized_def)
  next
    case False
    from convert_style_rewritten [OF wf(1,2,3) vs False ended_hd [OF e] assms(1)] False Declaration
    show ?thesis by (simp add: normalized_def)
  qed
qed

lemma convert_segmented:
  "segmented items rest \<Longrightarrow> convertToCurrentColor (markup_text items rest) = normalized_text items rest"
proof (induction items)
  case Nil
  then show ?case by (simp add: convert_quiet)
next
  case (Cons a items)
  obtain p d where a: "a = (p, d)" by (cases a)
  with Cons.prems have "quiet p" "well_formed d" "closed_by d (markup_text items rest)"
    "segmented items rest" by simp_all
  from convert_directive [OF this(1,2,3)] Cons.IH [OF this(4)] a show ?case by simp
qed

lemmas directive_eval = markup_text.simps normalized_text.simps normalized_def
  directive_text.simps directive_value.simps currentColor_text.simps attr_directive_def
  style_directive_def




text \<open>
  Claim C4, as the code has it. In markup that is a sequence of well-formed directives
  with text between them in which no pattern can begin, every directive whose value does
  not begin with \<^verbatim>\<open>none\<close> or \<^verbatim>\<open>transparent\<close> is rewritten to
  \<^verbatim>\<open>currentColor\<close>, every other directive (in particular one whose value is
  \<^verbatim>\<open>none\<close> or \<^verbatim>\<open>transparent\<close>, in any case) is left unchanged, and so is the
  text between the directives.
\<close>

theorem convertToCurrentColor_directives:
  assumes "segmented items rest"
  shows "convertToCurrentColor (markup_text items rest) = normalized_text items rest
       \<and> (\<forall>(p, d) \<in> set items.
            (\<not> excluded_value (directive_value d) \<longrightarrow> normalized d = currentColor_text d)
          \<and> (map lower (directive_value d) = js ''none''
               \<or> map lower (directive_value d) = js ''transparent''
                \<longrightarrow> normalized d = directive_text d))"
proof -
  have "normalized d = directive_text d"
    if "map lower (directive_value d) = js ''none''
          \<or> map lower (directive_value d) = js ''transparent''" for d
  proof -
    from that have "excluded_value (directive_value d)" by (auto simp: excluded_prefix)
    then show ?thesis by (simp add: normalized_def)
  qed
  moreover have "\<not> excluded_value (directive_value d) \<Longrightarrow> normalized d = currentColor_text d" for d
    by (simp add: normalized_def)
  ultimately show ?thesis using convert_segmented [OF assms] by blast
qed

theorem convertToCurrentColor_directives_witness:
  "convertToCurrentColor
     (js ''<svg FILL='' @ [SQ] @ js ''#ff0000'' @ [SQ] @ js '' stroke='' @ [DQ] @ js ''None'' @ [DQ]
        @ js ''><style>a{fill:red;Stroke: transparent;}</style></svg>'')
   = js ''<svg fill='' @ [SQ] @ js ''currentColor'' @ [SQ] @ js '' stroke='' @ [DQ] @ js ''None'' @ [DQ]
        @ js ''><style>a{fill: currentColor;Stroke: transparent;}</style></svg>''"
proof -
  have s: "segmented icon_markup (js '';}</style></svg>'')"
    by (simp add: icon_markup_def side_eval ended_def value_char_def attr_directive_def
        style_directive_def)
  from convertToCurrentColor_directives [OF s]
  have "convertToCurrentColor (markup_text icon_markup (js '';}</style></svg>''))
          = normalized_text icon_markup (js '';}</style></svg>'')" by blast
  then show ?thesis
    by (simp add: icon_markup_def directive_eval js_def excluded_value_def matches_ci_def lower_def)
qed

text \<open>
  The claim as the spec states it fails. The value \<^verbatim>\<open>NoneSuch\<close> is neither
  \<^verbatim>\<open>none\<close> nor \<^verbatim>\<open>transparent\<close>, and the directive is not rewritten. The six
  replacements do not parse the markup: a \<^verbatim>\<open>stroke\<close> attribute whose value contains
  \<^verbatim>\<open>fill="\<close> is not rewritten, a declaration whose value contains \<^verbatim>\<open>fill:\<close> is
  rewritten twice, and a directive inside the value of another directive disappears
  with that value.
\<close>

theorem convertToCurrentColor_counterexample:
  "map lower (js ''NoneSuch'') \<noteq> js ''none''
   \<and> map lower (js ''NoneSuch'') \<noteq> js ''transparent''
   \<and> convertToCurrentColor (js ''<rect '' @ attr_directive (js ''fill'') DQ (js ''NoneSuch'') @ js ''/>'')
       = js ''<rect '' @ attr_directive (js ''fill'') DQ (js ''NoneSuch'') @ js ''/>''
   \<and> js ''<rect '' @ attr_directive (js ''fill'') DQ (js ''NoneSuch'') @ js ''/>''
       \<noteq> js ''<rect '' @ attr_directive (js ''fill'') DQ (js ''currentColor'') @ js ''/>''
   \<and> convertToCurrentColor
         (js ''<g '' @ attr_directive (js ''stroke'') SQ (js ''fill='' @ [DQ]) @ js '' id=''
            @ [DQ] @ js ''a'' @ [DQ] @ js ''/>'')
       = js ''<g stroke='' @ [SQ] @ js ''fill='' @ [DQ] @ js ''currentColor'' @ [DQ] @ js ''a''
            @ [DQ] @ js ''/>''
   \<and> convertToCurrentColor
         (js ''a{'' @ style_directive (js ''stroke'') [] (js ''afill:b'') @ js ''}'')
       = js ''a{stroke: currentColor currentColor}''
   \<and> convertToCurrentColor
         (js ''<g stroke='' @ [SQ] @ attr_directive (js ''fill'') DQ (js ''red'') @ [SQ] @ js ''/>'')
       = js ''<g stroke='' @ [SQ] @ js ''currentColor'' @ [SQ] @ js ''/>''"
  by (simp add: convert_eval lower_def)

text \<open>
  The class \<^verbatim>\<open>[^;}\s]+\<close> of the two declaration patterns does not stop at a quote
  and stops at white space: a declaration that ends a \<^verbatim>\<open>style\<close> attribute takes the
  closing quote and the end of the tag with it, and a value with a blank in it is
  replaced up to the blank. Declarations closed by a quote or by white space are not
  among the directives above.
\<close>

lemma style_attribute_quote_lost:
  "convertToCurrentColor
     (js ''<path style='' @ [DQ] @ style_directive (js ''fill'') [] (js ''red'') @ [DQ] @ js ''/>'')
     = js ''<path style='' @ [DQ] @ js ''fill: currentColor''"
  by (simp add: convert_eval)

lemma style_value_cut_at_space:
  "convertToCurrentColor (js ''a{fill: rgb(255, 0, 0);}'') = js ''a{fill: currentColor 0, 0);}''"
  by (simp add: convert_eval)

end
